theory Spec2Isabelle
  imports Complex_Main "HOL-Library.Signed_Division" "HOL-Library.Sublist"
begin

section \<open>Data model\<close>

text \<open>
  The matching engine of the repository is embedded as pure functions over explicit state.
  Conventions of the embedding:
  \<^item> \<open>int\<close> fields of the C++ structs are modelled as unbounded integers; no property below
    depends on wrap-around of trade identifiers or counters.
  \<^item> \<open>double\<close> prices and volumes are modelled as exact rationals: every finite double is a
    rational, comparisons and map ordering on them are exact, and only the products formed in
    \<open>validatePrice\<close> and \<open>updateStats\<close> are idealised (no rounding).
  \<^item> \<open>std::chrono::system_clock::time_point\<close> is an integer count of clock ticks
    (nanoseconds); a function that reads the clock takes the reading as its first argument.
  \<^item> Console output is not modelled.
\<close>

type_synonym time_point = int

definition hours :: "int \<Rightarrow> int" where
  "hours h = h * 3600 * 1000000000"

datatype State = ACTIVE | INACTIVE | SUSPENDED | DELISTED

datatype TimeInForce = GTD | DAY

datatype OrderType = BID | ASK

datatype LimitType = LIMIT | NONE

text \<open>The fields of \<open>Instrument\<close>, as initialised by its constructor (Instrument.cpp).\<close>

record Instrument =
  idinstrument :: int
  marketIdentificationCode :: string
  tradingCurrency :: string
  name :: string
  issue :: int
  state :: State
  refprice :: rat
  idtradinggroup :: int
  lotsize :: int
  pricedecimal :: int
  currentorderid :: int
  currenttradeid :: int
  idapf :: int

text \<open>\<open>struct Trade\<close> (Trading.hpp).\<close>

record Trade =
  tradeId :: int
  buyOrderId :: int
  sellOrderId :: int
  marketIdentificationCode :: string
  tradingCurrency :: string
  price :: rat
  quantity :: int
  timestamp :: time_point

text \<open>
  \<open>class Order\<close> (Order.hpp). It is declared last, so that the unqualified field names
  \<open>price\<close>, \<open>quantity\<close>, \<open>idinstrument\<close>, \<open>marketIdentificationCode\<close> and
  \<open>tradingCurrency\<close> denote the fields of an order; those of a trade or an instrument are
  written qualified.
\<close>

record Order =
  idorder :: int
  marketIdentificationCode :: string
  tradingCurrency :: string
  priority :: time_point
  expirationDate :: time_point
  price :: rat
  quantity :: int
  originalqty :: int
  timeinforce :: TimeInForce
  ordertype :: OrderType
  limitType :: LimitType
  idinstrument :: int
  idfirm :: int

text \<open>
  A side of the book is a \<open>std::map<double, std::deque<Order>, Compare>\<close>: the list of its
  (price, queue) entries in iteration order, so that \<open>begin()\<close> is the head of the list.
\<close>

type_synonym level = "rat \<times> Order list"

record Stats =
  dailyTradeCount :: int
  dailyVolume :: rat
  lastReset :: time_point
  totalTradeCount :: int
  totalVolume :: rat
  matchingAttempts :: int
  successfulMatches :: int

text \<open>
  \<open>class OrderBook\<close>. The back-pointer \<open>matchingEngine\<close> is modelled by a flag: it is
  either null or points to the one engine that owns the book.
\<close>

record OrderBook =
  bidOrders :: "level list"
  askOrders :: "level list"
  trades :: "Trade list"
  nextTradeId :: int
  matchingEngine :: bool

record InstrumentManager =
  instrumentSet :: "(int \<times> string \<times> string) set"
  instruments :: "Instrument list"

text \<open>
  \<open>class MatchingEngine\<close>: the engine holds references to the book and to the instrument
  manager, so the three objects form one state.
\<close>

record MatchingEngine =
  orderBook :: OrderBook
  instrumentManager :: InstrumentManager
  isRunning :: bool
  stats :: Stats

datatype fault = DivisionByZero

section \<open>Instrument registry\<close>

definition instrumentKey :: "Instrument \<Rightarrow> int \<times> string \<times> string" where
  "instrumentKey instrument =
     (Instrument.idinstrument instrument,
      Instrument.marketIdentificationCode instrument,
      Instrument.tradingCurrency instrument)"

definition isUniqueInstrument :: "(int \<times> string \<times> string) set \<Rightarrow> Instrument \<Rightarrow> bool" where
  "isUniqueInstrument iset instrument \<longleftrightarrow> instrumentKey instrument \<notin> iset"

text \<open>\<open>InstrumentManager::addInstrument\<close>: the returned flag and the updated manager.\<close>

definition addInstrument :: "Instrument \<Rightarrow> InstrumentManager \<Rightarrow> bool \<times> InstrumentManager" where
  "addInstrument instrument im =
     (if isUniqueInstrument (instrumentSet im) instrument
      then (True, im\<lparr>instrumentSet := insert (instrumentKey instrument) (instrumentSet im),
                      instruments := instruments im @ [instrument]\<rparr>)
      else (False, im))"

definition emptyManager :: InstrumentManager where
  "emptyManager = \<lparr>instrumentSet = {}, instruments = []\<rparr>"

text \<open>A sequence of registrations, starting from a given manager.\<close>

fun addInstruments :: "Instrument list \<Rightarrow> InstrumentManager \<Rightarrow> InstrumentManager" where
  "addInstruments [] im = im"
| "addInstruments (instrument # rest) im = addInstruments rest (snd (addInstrument instrument im))"

section \<open>Order validators\<close>

definition pow10 :: "int \<Rightarrow> rat" where
  "pow10 e = (if 0 \<le> e then 10 ^ nat e else 1 / 10 ^ nat (- e))"

text \<open>\<open>std::round\<close>: to the nearest integer, halfway cases away from zero.\<close>

definition c_round :: "rat \<Rightarrow> rat" where
  "c_round x = (if 0 \<le> x then of_int \<lfloor>x + 1 / 2\<rfloor> else of_int \<lceil>x - 1 / 2\<rceil>)"

definition validatePrice :: "Order \<Rightarrow> Instrument \<Rightarrow> bool" where
  "validatePrice ord instrument =
     (if price ord \<le> 0 then False
      else
        let precisionFactor = pow10 (pricedecimal instrument);
            multipliedPrice = price ord * precisionFactor;
            roundedPrice = c_round multipliedPrice;
            tolerance = 1 / 10 ^ 8
        in if \<bar>multipliedPrice - roundedPrice\<bar> > tolerance then False else True)"

text \<open>
  \<open>Order::validateQuantity\<close>. The test \<open>std::fmod(quantity, 1.0) != 0.0\<close> is applied to an
  \<open>int\<close> and never fires; \<open>quantity % lotsize\<close> is the truncating remainder of C++ and is
  undefined for a zero lot size, which the model reports as a fault.
\<close>

definition validateQuantity :: "Order \<Rightarrow> Instrument \<Rightarrow> fault + bool" where
  "validateQuantity ord instrument =
     (if quantity ord \<le> 0 then Inr False
      else if rat_of_int (quantity ord) - of_int \<lfloor>rat_of_int (quantity ord)\<rfloor> \<noteq> 0 then Inr False
      else if lotsize instrument = 0 then Inl DivisionByZero
      else if quantity ord smod lotsize instrument \<noteq> 0 then Inr False
      else Inr True)"

section \<open>Order book\<close>

text \<open>
  \<open>m[key].push_back(ord)\<close> on a \<open>std::map\<close> with comparison \<open>cmp\<close>: the entry of an
  equivalent key is extended at its tail, otherwise a new entry is created at the place the
  ordering gives it.
\<close>

fun map_push_back :: "(rat \<Rightarrow> rat \<Rightarrow> bool) \<Rightarrow> Order \<Rightarrow> level list \<Rightarrow> level list" where
  "map_push_back cmp ord [] = [(price ord, [ord])]"
| "map_push_back cmp ord ((p, q) # ls) =
     (if cmp (price ord) p then (price ord, [ord]) # (p, q) # ls
      else if cmp p (price ord) then (p, q) # map_push_back cmp ord ls
      else (p, q @ [ord]) # ls)"

definition addOrder :: "Order \<Rightarrow> OrderBook \<Rightarrow> OrderBook" where
  "addOrder ord ob =
     (if ordertype ord = BID
      then ob\<lparr>bidOrders := map_push_back (\<lambda>a b. a > b) ord (bidOrders ob)\<rparr>
      else if ordertype ord = ASK
      then ob\<lparr>askOrders := map_push_back (\<lambda>a b. a < b) ord (askOrders ob)\<rparr>
      else ob)"

text \<open>\<open>MatchingEngine::updateStats\<close> and \<open>OrderBook::notifyMatch\<close>.\<close>

definition updateStats :: "Trade \<Rightarrow> Stats \<Rightarrow> Stats" where
  "updateStats trade st =
     (let tradeValue = of_int (Trade.quantity trade) * Trade.price trade
      in st\<lparr>dailyTradeCount := dailyTradeCount st + 1,
             dailyVolume := dailyVolume st + tradeValue,
             totalTradeCount := totalTradeCount st + 1,
             totalVolume := totalVolume st + tradeValue,
             successfulMatches := successfulMatches st + 1\<rparr>)"

definition notifyMatch :: "bool \<Rightarrow> Trade \<Rightarrow> Stats \<Rightarrow> Stats" where
  "notifyMatch engine trade st = (if engine then updateStats trade st else st)"

text \<open>
  \<open>OrderBook::cleanupExecutedOrders\<close>: on each side, the erase-remove idiom on every queue,
  and the entry is erased from the map when its queue became empty.
\<close>

fun cleanupLevels :: "level list \<Rightarrow> level list" where
  "cleanupLevels [] = []"
| "cleanupLevels ((p, q) # ls) =
     (let q' = filter (\<lambda>ord. quantity ord \<noteq> 0) q
      in if q' = [] then cleanupLevels ls else (p, q') # cleanupLevels ls)"

definition cleanupExecutedOrders :: "OrderBook \<Rightarrow> OrderBook" where
  "cleanupExecutedOrders ob =
     ob\<lparr>bidOrders := cleanupLevels (bidOrders ob), askOrders := cleanupLevels (askOrders ob)\<rparr>"

definition compatible :: "Order \<Rightarrow> Order \<Rightarrow> bool" where
  "compatible bidOrder askOrder \<longleftrightarrow>
     idinstrument bidOrder = idinstrument askOrder \<and>
     marketIdentificationCode bidOrder = marketIdentificationCode askOrder \<and>
     tradingCurrency bidOrder = tradingCurrency askOrder"

text \<open>
  The variables the two nested \<open>for\<close> loops of \<open>matchOrders\<close> write besides the two queues:
  the trade log, the trade id counter, the statistics of the engine, and the two locals.
\<close>

record MatchCtx =
  ctxTrades :: "Trade list"
  ctxNextTradeId :: int
  ctxStats :: Stats
  tradesExecuted :: int
  matchFound :: bool

text \<open>The body of the compatibility test: one trade between \<open>bidOrder\<close> and \<open>askOrder\<close>.\<close>

definition executeTrade ::
  "time_point \<Rightarrow> bool \<Rightarrow> Order \<Rightarrow> Order \<Rightarrow> MatchCtx \<Rightarrow> Order \<times> Order \<times> MatchCtx" where
  "executeTrade now engine bidOrder askOrder ctx =
     (let tradeQuantity = min (quantity bidOrder) (quantity askOrder);
          trade = \<lparr>tradeId = ctxNextTradeId ctx,
                   buyOrderId = idorder bidOrder,
                   sellOrderId = idorder askOrder,
                   Trade.marketIdentificationCode = marketIdentificationCode bidOrder,
                   Trade.tradingCurrency = tradingCurrency bidOrder,
                   Trade.price = price askOrder,
                   Trade.quantity = tradeQuantity,
                   timestamp = now\<rparr>
      in (bidOrder\<lparr>quantity := quantity bidOrder - tradeQuantity\<rparr>,
          askOrder\<lparr>quantity := quantity askOrder - tradeQuantity\<rparr>,
          ctx\<lparr>ctxTrades := ctxTrades ctx @ [trade],
              ctxNextTradeId := ctxNextTradeId ctx + 1,
              ctxStats := notifyMatch engine trade (ctxStats ctx),
              tradesExecuted := tradesExecuted ctx + 1,
              matchFound := True\<rparr>))"

text \<open>
  The inner loop \<open>for (auto& askOrder : lowestAskIt->second)\<close> for one bid: it returns the
  bid, the ask queue and the context as the loop leaves them. The loop stops at the first
  trade that fills either order.
\<close>

fun scanAsks ::
  "time_point \<Rightarrow> bool \<Rightarrow> Order \<Rightarrow> Order list \<Rightarrow> MatchCtx \<Rightarrow> Order \<times> Order list \<times> MatchCtx" where
  "scanAsks now engine bidOrder [] ctx = (bidOrder, [], ctx)"
| "scanAsks now engine bidOrder (askOrder # rest) ctx =
     (if compatible bidOrder askOrder
      then
        (case executeTrade now engine bidOrder askOrder ctx of
           (bidOrder', askOrder', ctx') \<Rightarrow>
             if quantity bidOrder' = 0 \<or> quantity askOrder' = 0
             then (bidOrder', askOrder' # rest, ctx')
             else (case scanAsks now engine bidOrder' rest ctx' of
                     (bidOrder'', rest', ctx'') \<Rightarrow> (bidOrder'', askOrder' # rest', ctx'')))
      else (case scanAsks now engine bidOrder rest ctx of
              (bidOrder', rest', ctx') \<Rightarrow> (bidOrder', askOrder # rest', ctx')))"

text \<open>
  The outer loop \<open>for (auto& bidOrder : highestBidIt->second)\<close>, left as soon as
  \<open>matchFound\<close> is set.
\<close>

fun scanBids ::
  "time_point \<Rightarrow> bool \<Rightarrow> Order list \<Rightarrow> Order list \<Rightarrow> MatchCtx
     \<Rightarrow> Order list \<times> Order list \<times> MatchCtx" where
  "scanBids now engine [] asks ctx = ([], asks, ctx)"
| "scanBids now engine (bidOrder # rest) asks ctx =
     (case scanAsks now engine bidOrder asks ctx of
        (bidOrder', asks', ctx') \<Rightarrow>
          if matchFound ctx' then (bidOrder' # rest, asks', ctx')
          else (case scanBids now engine rest asks' ctx' of
                  (rest', asks'', ctx'') \<Rightarrow> (bidOrder' # rest', asks'', ctx'')))"

text \<open>
  One iteration of the \<open>while\<close> loop of \<open>matchOrders\<close> past its two exit tests: the scan of
  the two top-of-book queues followed by \<open>cleanupExecutedOrders\<close>. It returns the value of
  \<open>matchFound\<close>, the trade counter, the book and the statistics.
\<close>

definition matchPass ::
  "time_point \<Rightarrow> OrderBook \<Rightarrow> Stats \<Rightarrow> int \<Rightarrow> bool \<times> int \<times> OrderBook \<times> Stats" where
  "matchPass now ob st n =
     (case (bidOrders ob, askOrders ob) of
        ((bp, bq) # brest, (ap, aq) # arest) \<Rightarrow>
          (case scanBids now (matchingEngine ob) bq aq
                  \<lparr>ctxTrades = trades ob, ctxNextTradeId = nextTradeId ob, ctxStats = st,
                   tradesExecuted = n, matchFound = False\<rparr> of
             (bq', aq', ctx') \<Rightarrow>
               (matchFound ctx', tradesExecuted ctx',
                cleanupExecutedOrders
                  (ob\<lparr>bidOrders := (bp, bq') # brest, askOrders := (ap, aq') # arest,
                      trades := ctxTrades ctx', nextTradeId := ctxNextTradeId ctx'\<rparr>),
                ctxStats ctx'))
      | _ \<Rightarrow> (False, n, cleanupExecutedOrders ob, st))"

text \<open>All resting orders of one side, in the iteration order of the map and of its queues.\<close>

definition allOrders :: "level list \<Rightarrow> Order list" where
  "allOrders ls = concat (map snd ls)"

definition orderCount :: "OrderBook \<Rightarrow> nat" where
  "orderCount ob = length (allOrders (bidOrders ob)) + length (allOrders (askOrders ob))"

subsection \<open>The scan of the two top-of-book queues\<close>

lemma executeTrade_zero:
  "executeTrade now e b a ctx = (b', a', ctx') \<Longrightarrow> quantity b' = 0 \<or> quantity a' = 0"
  by (auto simp: executeTrade_def Let_def min_def split: if_splits)

lemma executeTrade_found:
  "executeTrade now e b a ctx = (b', a', ctx') \<Longrightarrow> matchFound ctx'"
  by (auto simp: executeTrade_def Let_def)

lemma scanAsks_none:
  "\<forall>a\<in>set asks. \<not> compatible b a \<Longrightarrow> scanAsks now e b asks ctx = (b, asks, ctx)"
  by (induction asks) auto

lemma scanAsks_hit:
  assumes "\<forall>x\<in>set as1. \<not> compatible b x" "compatible b a"
  shows "scanAsks now e b (as1 @ a # as2) ctx =
           (case executeTrade now e b a ctx of (b', a', ctx') \<Rightarrow> (b', as1 @ a' # as2, ctx'))"
  using assms
proof (induction as1)
  case Nil
  then show ?case
    by (auto split: prod.splits dest: executeTrade_zero)
next
  case (Cons x as1)
  then show ?case by (auto split: prod.splits)
qed

lemma scanBids_none:
  "\<forall>b\<in>set bids. \<forall>a\<in>set asks. \<not> compatible b a \<Longrightarrow> \<not> matchFound ctx \<Longrightarrow>
     scanBids now e bids asks ctx = (bids, asks, ctx)"
  by (induction bids) (auto simp: scanAsks_none)

lemma scanBids_hit:
  assumes "\<forall>x\<in>set bs1. \<forall>y\<in>set (as1 @ a # as2). \<not> compatible x y"
    and "\<forall>x\<in>set as1. \<not> compatible b x" "compatible b a" "\<not> matchFound ctx"
  shows "scanBids now e (bs1 @ b # bs2) (as1 @ a # as2) ctx =
           (case executeTrade now e b a ctx of
              (b', a', ctx') \<Rightarrow> (bs1 @ b' # bs2, as1 @ a' # as2, ctx'))"
  using assms
proof (induction bs1)
  case Nil
  then show ?case
    by (auto simp: scanAsks_hit split: prod.splits dest: executeTrade_found)
next
  case (Cons x bs1)
  have "scanAsks now e x (as1 @ a # as2) ctx = (x, as1 @ a # as2, ctx)"
    using Cons.prems(1) by (intro scanAsks_none) auto
  with Cons show ?case by (auto split: prod.splits)
qed

lemma scanBids_cases [consumes 1, case_names none hit]:
  assumes "\<not> matchFound ctx"
  obtains (none) "\<forall>b\<in>set bids. \<forall>a\<in>set asks. \<not> compatible b a"
      "scanBids now e bids asks ctx = (bids, asks, ctx)"
  | (hit) bs1 b bs2 as1 a as2 where
      "bids = bs1 @ b # bs2" "asks = as1 @ a # as2"
      "\<forall>x\<in>set bs1. \<forall>y\<in>set asks. \<not> compatible x y"
      "\<forall>x\<in>set as1. \<not> compatible b x" "compatible b a"
      "scanBids now e bids asks ctx =
         (case executeTrade now e b a ctx of
            (b', a', ctx') \<Rightarrow> (bs1 @ b' # bs2, as1 @ a' # as2, ctx'))"
proof (cases "\<exists>b\<in>set bids. \<exists>a\<in>set asks. compatible b a")
  case False
  then have "\<forall>b\<in>set bids. \<forall>a\<in>set asks. \<not> compatible b a" by blast
  then show ?thesis using none scanBids_none assms by blast
next
  case True
  then obtain bs1 b bs2 where b: "bids = bs1 @ b # bs2" "\<exists>a\<in>set asks. compatible b a"
    "\<forall>x\<in>set bs1. \<not> (\<exists>a\<in>set asks. compatible x a)"
    using split_list_first_prop [of bids "\<lambda>b. \<exists>a\<in>set asks. compatible b a"] by blast
  from b(2) obtain as1 a as2 where a: "asks = as1 @ a # as2" "compatible b a"
    "\<forall>x\<in>set as1. \<not> compatible b x"
    using split_list_first_prop [of asks "compatible b"] by blast
  have "scanBids now e bids asks ctx =
         (case executeTrade now e b a ctx of
            (b', a', ctx') \<Rightarrow> (bs1 @ b' # bs2, as1 @ a' # as2, ctx'))"
    unfolding b(1) a(1) using b(3) a assms by (intro scanBids_hit) auto
  then show ?thesis using hit b a by blast
qed

lemma allOrders_cleanupLevels:
  "allOrders (cleanupLevels ls) = filter (\<lambda>ord. quantity ord \<noteq> 0) (allOrders ls)"
  by (induction ls) (auto simp: allOrders_def Let_def)

lemma allOrders_Cons [simp]: "allOrders ((p, q) # ls) = q @ allOrders ls"
  by (simp add: allOrders_def)

lemma allOrders_Nil [simp]: "allOrders [] = []"
  by (simp add: allOrders_def)

lemma length_cleanup_le: "length (allOrders (cleanupLevels ls)) \<le> length (allOrders ls)"
  by (simp add: allOrders_cleanupLevels)

lemma length_cleanup_less:
  "\<exists>ord\<in>set (allOrders ls). quantity ord = 0 \<Longrightarrow>
     length (allOrders (cleanupLevels ls)) < length (allOrders ls)"
  unfolding allOrders_cleanupLevels by (auto intro: length_filter_less)

lemma matchPass_decreases:
  assumes "matchPass now ob st n = (True, n', ob', st')"
  shows "orderCount ob' < orderCount ob"
proof -
  from assms obtain bp bq brest ap aq arest where
    tops: "bidOrders ob = (bp, bq) # brest" "askOrders ob = (ap, aq) # arest"
    by (auto simp: matchPass_def split: list.splits prod.splits)
  let ?ctx = "\<lparr>ctxTrades = trades ob, ctxNextTradeId = nextTradeId ob, ctxStats = st,
                tradesExecuted = n, matchFound = False\<rparr>"
  have nf: "\<not> matchFound ?ctx" by simp
  from nf show ?thesis
  proof (cases rule: scanBids_cases [where bids = bq and asks = aq and now = now
                                       and e = "matchingEngine ob"])
    case none
    with assms tops show ?thesis by (simp add: matchPass_def)
  next
    case (hit bs1 b bs2 as1 a as2)
    obtain b' a' ctx' where ex: "executeTrade now (matchingEngine ob) b a ?ctx = (b', a', ctx')"
      by (metis prod_cases3)
    from executeTrade_zero [OF ex] have z: "quantity b' = 0 \<or> quantity a' = 0" .
    have ob': "ob' = cleanupExecutedOrders
                  (ob\<lparr>bidOrders := (bp, bs1 @ b' # bs2) # brest,
                      askOrders := (ap, as1 @ a' # as2) # arest,
                      trades := ctxTrades ctx', nextTradeId := ctxNextTradeId ctx'\<rparr>)"
      using assms tops hit(6) ex by (simp add: matchPass_def)
    have lb: "length (allOrders (cleanupLevels ((bp, bs1 @ b' # bs2) # brest)))
                \<le> length (allOrders (bidOrders ob))"
      using length_cleanup_le [of "(bp, bs1 @ b' # bs2) # brest"] tops hit(1) by simp
    have la: "length (allOrders (cleanupLevels ((ap, as1 @ a' # as2) # arest)))
                \<le> length (allOrders (askOrders ob))"
      using length_cleanup_le [of "(ap, as1 @ a' # as2) # arest"] tops hit(2) by simp
    from z show ?thesis
    proof
      assume "quantity b' = 0"
      then have "length (allOrders (cleanupLevels ((bp, bs1 @ b' # bs2) # brest)))
                < length (allOrders (bidOrders ob))"
        using length_cleanup_less [of "(bp, bs1 @ b' # bs2) # brest"] tops hit(1) by auto
      with la show ?thesis by (simp add: ob' orderCount_def cleanupExecutedOrders_def)
    next
      assume "quantity a' = 0"
      then have "length (allOrders (cleanupLevels ((ap, as1 @ a' # as2) # arest)))
                < length (allOrders (askOrders ob))"
        using length_cleanup_less [of "(ap, as1 @ a' # as2) # arest"] tops hit(2) by auto
      with lb show ?thesis by (simp add: ob' orderCount_def cleanupExecutedOrders_def)
    qed
  qed
qed

text \<open>
  The \<open>while\<close> loop of \<open>matchOrders\<close>. Every iteration that finds a match fills one of
  the two orders, which the cleanup removes, so the number of resting orders is a measure.
\<close>

function matchLoop :: "time_point \<Rightarrow> OrderBook \<Rightarrow> Stats \<Rightarrow> int \<Rightarrow> int \<times> OrderBook \<times> Stats" where
  "matchLoop now ob st n =
     (if bidOrders ob = [] \<or> askOrders ob = [] then (n, ob, st)
      else if fst (hd (bidOrders ob)) < fst (hd (askOrders ob)) then (n, ob, st)
      else (case matchPass now ob st n of
              (found, n', ob', st') \<Rightarrow>
                if found then matchLoop now ob' st' n' else (n', ob', st')))"
  by pat_completeness auto
termination
  by (relation "measure (\<lambda>(now, ob, st, n). orderCount ob)")
     (auto dest: matchPass_decreases [OF sym])

declare matchLoop.simps [simp del]

text \<open>\<open>OrderBook::matchOrders\<close>: the number of trades, the book and the statistics.\<close>

definition matchOrders :: "time_point \<Rightarrow> OrderBook \<Rightarrow> Stats \<Rightarrow> int \<times> OrderBook \<times> Stats" where
  "matchOrders now ob st = matchLoop now ob st 0"


section \<open>One iteration of the sweep, and the sweep\<close>

text \<open>
  The trade of a bid and an ask as \<open>executeTrade\<close> builds it, and an order after \<open>k\<close> units
  of it were executed.
\<close>

definition pairTrade :: "time_point \<Rightarrow> int \<Rightarrow> Order \<Rightarrow> Order \<Rightarrow> Trade" where
  "pairTrade now tid bidOrder askOrder =
     \<lparr>tradeId = tid, buyOrderId = idorder bidOrder, sellOrderId = idorder askOrder,
      Trade.marketIdentificationCode = marketIdentificationCode bidOrder,
      Trade.tradingCurrency = tradingCurrency bidOrder,
      Trade.price = price askOrder,
      Trade.quantity = min (quantity bidOrder) (quantity askOrder),
      timestamp = now\<rparr>"

definition fill :: "int \<Rightarrow> Order \<Rightarrow> Order" where
  "fill k ord = ord\<lparr>quantity := quantity ord - k\<rparr>"

lemma executeTrade_eq:
  "executeTrade now e b a ctx =
     (fill (min (quantity b) (quantity a)) b, fill (min (quantity b) (quantity a)) a,
      ctx\<lparr>ctxTrades := ctxTrades ctx @ [pairTrade now (ctxNextTradeId ctx) b a],
          ctxNextTradeId := ctxNextTradeId ctx + 1,
          ctxStats := notifyMatch e (pairTrade now (ctxNextTradeId ctx) b a) (ctxStats ctx),
          tradesExecuted := tradesExecuted ctx + 1,
          matchFound := True\<rparr>)"
  by (simp add: executeTrade_def pairTrade_def fill_def Let_def)

text \<open>
  What one iteration does to a book with a bid level and an ask level: either no bid of the
  best bid queue is compatible with an ask of the best ask queue, and the iteration only cleans
  up; or the first compatible pair, in the order of the two nested loops, trades once.
\<close>

lemma matchPass_cases [consumes 2, case_names none hit]:
  assumes tops: "bidOrders ob = (bp, bq) # brest" "askOrders ob = (ap, aq) # arest"
  obtains (none) "\<forall>b\<in>set bq. \<forall>a\<in>set aq. \<not> compatible b a"
      "matchPass now ob st n = (False, n, cleanupExecutedOrders ob, st)"
  | (hit) bs1 b bs2 as1 a as2 where
      "bq = bs1 @ b # bs2" "aq = as1 @ a # as2"
      "\<forall>x\<in>set bs1. \<forall>y\<in>set aq. \<not> compatible x y"
      "\<forall>y\<in>set as1. \<not> compatible b y" "compatible b a"
      "matchPass now ob st n =
         (True, n + 1,
          cleanupExecutedOrders
            (ob\<lparr>bidOrders := (bp, bs1 @ fill (min (quantity b) (quantity a)) b # bs2) # brest,
                askOrders := (ap, as1 @ fill (min (quantity b) (quantity a)) a # as2) # arest,
                trades := trades ob @ [pairTrade now (nextTradeId ob) b a],
                nextTradeId := nextTradeId ob + 1\<rparr>),
          notifyMatch (matchingEngine ob) (pairTrade now (nextTradeId ob) b a) st)"
proof -
  let ?ctx = "\<lparr>ctxTrades = trades ob, ctxNextTradeId = nextTradeId ob, ctxStats = st,
                tradesExecuted = n, matchFound = False\<rparr>"
  have nf: "\<not> matchFound ?ctx" by simp
  from nf show ?thesis
  proof (cases rule: scanBids_cases [where bids = bq and asks = aq and now = now
                                       and e = "matchingEngine ob"])
    case none
    have "matchPass now ob st n = (False, n, cleanupExecutedOrders ob, st)"
      using tops none(2) by (simp add: matchPass_def cleanupExecutedOrders_def)
    with none(1) show ?thesis using that(1) by blast
  next
    case (hit bs1 b bs2 as1 a as2)
    have "matchPass now ob st n =
         (True, n + 1,
          cleanupExecutedOrders
            (ob\<lparr>bidOrders := (bp, bs1 @ fill (min (quantity b) (quantity a)) b # bs2) # brest,
                askOrders := (ap, as1 @ fill (min (quantity b) (quantity a)) a # as2) # arest,
                trades := trades ob @ [pairTrade now (nextTradeId ob) b a],
                nextTradeId := nextTradeId ob + 1\<rparr>),
          notifyMatch (matchingEngine ob) (pairTrade now (nextTradeId ob) b a) st)"
      using tops hit(6) by (simp add: matchPass_def executeTrade_eq)
    with hit(1-5) show ?thesis using that(2) by blast
  qed
qed

text \<open>An invariant of the iterations past the exit tests holds when the loop returns.\<close>

lemma matchLoop_rule:
  assumes init: "I n ob st"
    and step: "\<And>ob st n found n' ob' st'.
        I n ob st \<Longrightarrow> bidOrders ob \<noteq> [] \<Longrightarrow> askOrders ob \<noteq> [] \<Longrightarrow>
        \<not> fst (hd (bidOrders ob)) < fst (hd (askOrders ob)) \<Longrightarrow>
        matchPass now ob st n = (found, n', ob', st') \<Longrightarrow> I n' ob' st'"
  shows "case matchLoop now ob st n of (n', ob', st') \<Rightarrow> I n' ob' st'"
  using assms
proof (induction now ob st n rule: matchLoop.induct)
  case (1 now ob st n)
  note init = "1.prems"(1) and step = "1.prems"(2)
  show ?case
  proof (cases "bidOrders ob = [] \<or> askOrders ob = [] \<or>
                fst (hd (bidOrders ob)) < fst (hd (askOrders ob))")
    case True
    then show ?thesis using init by (auto simp: matchLoop.simps)
  next
    case False
    obtain found n' ob' st' where p: "matchPass now ob st n = (found, n', ob', st')"
      by (metis prod_cases4)
    have I': "I n' ob' st'" using step [OF init _ _ _ p] False by blast
    show ?thesis
    proof (cases found)
      case True
      have "matchLoop now ob st n = matchLoop now ob' st' n'"
        using False p True by (subst matchLoop.simps) simp
      moreover have "case matchLoop now ob' st' n' of (n', ob', st') \<Rightarrow> I n' ob' st'"
        using "1.IH" [of found "(n', ob', st')" n' "(ob', st')" ob' st'] False p True I' step
        by simp
      ultimately show ?thesis by simp
    next
      case f: False
      have "matchLoop now ob st n = (n', ob', st')"
        using False p f by (subst matchLoop.simps) simp
      with I' show ?thesis by simp
    qed
  qed
qed


section \<open>Matching engine\<close>

definition getLastTrade :: "OrderBook \<Rightarrow> Trade option" where
  "getLastTrade ob = (if trades ob = [] then None else Some (last (trades ob)))"

text \<open>The constructors of \<open>OrderBook\<close> and \<open>MatchingEngine\<close>.\<close>

definition newOrderBook :: OrderBook where
  "newOrderBook =
     \<lparr>bidOrders = [], askOrders = [], trades = [], nextTradeId = 1, matchingEngine = False\<rparr>"

definition newMatchingEngine :: "time_point \<Rightarrow> OrderBook \<Rightarrow> InstrumentManager \<Rightarrow> MatchingEngine" where
  "newMatchingEngine now ob im =
     \<lparr>orderBook = ob\<lparr>matchingEngine := True\<rparr>,
      instrumentManager = im,
      isRunning = False,
      stats = \<lparr>dailyTradeCount = 0, dailyVolume = 0, lastReset = now, totalTradeCount = 0,
               totalVolume = 0, matchingAttempts = 0, successfulMatches = 0\<rparr>\<rparr>"

text \<open>
  \<open>MatchingEngine::start\<close> and \<open>MatchingEngine::stop\<close>. The worker thread itself is not part of
  the state; the flag \<open>isRunning\<close> is.
\<close>

definition start :: "time_point \<Rightarrow> MatchingEngine \<Rightarrow> MatchingEngine" where
  "start now eng =
     (if \<not> isRunning eng
      then eng\<lparr>isRunning := True,
               stats := (stats eng)\<lparr>dailyTradeCount := 0, dailyVolume := 0, totalTradeCount := 0,
                                     totalVolume := 0, matchingAttempts := 0,
                                     successfulMatches := 0, lastReset := now\<rparr>\<rparr>
      else eng)"

definition stop :: "MatchingEngine \<Rightarrow> MatchingEngine" where
  "stop eng = (if isRunning eng then eng\<lparr>isRunning := False\<rparr> else eng)"

definition resetDailyStats :: "time_point \<Rightarrow> MatchingEngine \<Rightarrow> MatchingEngine" where
  "resetDailyStats now eng =
     eng\<lparr>stats := (stats eng)\<lparr>dailyTradeCount := 0, dailyVolume := 0, matchingAttempts := 0,
                                 successfulMatches := 0, lastReset := now\<rparr>\<rparr>"

text \<open>
  The first block of the loop body of \<open>MatchingEngine::run\<close>: the daily reset, decided on the
  local \<open>lastStatsReset\<close>, which is returned with the engine.
\<close>

definition runDailyReset ::
  "time_point \<Rightarrow> time_point \<Rightarrow> MatchingEngine \<Rightarrow> time_point \<times> MatchingEngine" where
  "runDailyReset now lastStatsReset eng =
     (if now - lastStatsReset > hours 24 then (now, resetDailyStats now eng)
      else (lastStatsReset, eng))"

text \<open>
  \<open>MatchingEngine::checkGTDOrders\<close>: the erase-remove idiom with the expiry predicate on every
  queue of both sides. The map entries themselves are kept.
\<close>

definition expired :: "time_point \<Rightarrow> Order \<Rightarrow> bool" where
  "expired now ord \<longleftrightarrow> timeinforce ord = GTD \<and> expirationDate ord \<le> now"

definition eraseExpired :: "time_point \<Rightarrow> level list \<Rightarrow> level list" where
  "eraseExpired now ls = map (\<lambda>(p, orders). (p, filter (\<lambda>ord. \<not> expired now ord) orders)) ls"

definition checkGTDOrders :: "time_point \<Rightarrow> MatchingEngine \<Rightarrow> MatchingEngine" where
  "checkGTDOrders now eng =
     eng\<lparr>orderBook := (orderBook eng)\<lparr>bidOrders := eraseExpired now (bidOrders (orderBook eng)),
                                         askOrders := eraseExpired now (askOrders (orderBook eng))\<rparr>\<rparr>"

text \<open>
  \<open>MatchingEngine::addAndValidateOrder\<close>. \<open>instrumentMatches\<close> is the test of the loop over
  the registered instruments, \<open>acceptOrder\<close> the branch taken when both validators pass.
\<close>

definition instrumentMatches :: "Instrument \<Rightarrow> Order \<Rightarrow> bool" where
  "instrumentMatches instrument ord \<longleftrightarrow>
     Instrument.idinstrument instrument = idinstrument ord \<and>
     Instrument.marketIdentificationCode instrument = marketIdentificationCode ord \<and>
     Instrument.tradingCurrency instrument = tradingCurrency ord"

definition acceptOrder :: "time_point \<Rightarrow> Order \<Rightarrow> MatchingEngine \<Rightarrow> MatchingEngine" where
  "acceptOrder now ord eng =
     (case matchOrders now (addOrder ord (orderBook eng)) (stats eng) of
        (matches, ob', st') \<Rightarrow>
          eng\<lparr>orderBook := ob',
              stats := (if matches > 0
                        then (case getLastTrade ob' of
                                None \<Rightarrow> st'
                              | Some lastTrade \<Rightarrow> updateStats lastTrade st')
                        else st')\<rparr>)"

fun addAndValidateLoop ::
  "time_point \<Rightarrow> Order \<Rightarrow> Instrument list \<Rightarrow> MatchingEngine \<Rightarrow> fault + (bool \<times> MatchingEngine)" where
  "addAndValidateLoop now ord [] eng = Inr (False, eng)"
| "addAndValidateLoop now ord (instrument # rest) eng =
     (if instrumentMatches instrument ord
      then
        (if validatePrice ord instrument
         then (case validateQuantity ord instrument of
                 Inl f \<Rightarrow> Inl f
               | Inr ok \<Rightarrow> if ok then Inr (True, acceptOrder now ord eng) else Inr (False, eng))
         else Inr (False, eng))
      else addAndValidateLoop now ord rest eng)"

definition addAndValidateOrder ::
  "time_point \<Rightarrow> Order \<Rightarrow> MatchingEngine \<Rightarrow> fault + (bool \<times> MatchingEngine)" where
  "addAndValidateOrder now ord eng =
     addAndValidateLoop now ord (instruments (instrumentManager eng)) eng"

section \<open>Engine start\<close>

definition zeroStats :: "time_point \<Rightarrow> Stats" where
  "zeroStats now =
     \<lparr>dailyTradeCount = 0, dailyVolume = 0, lastReset = now, totalTradeCount = 0,
      totalVolume = 0, matchingAttempts = 0, successfulMatches = 0\<rparr>"

text \<open>An engine that has traded: five trades in its lifetime, two of them today.\<close>

definition tradedEngine :: MatchingEngine where
  "tradedEngine =
     \<lparr>orderBook = newOrderBook\<lparr>matchingEngine := True\<rparr>,
      instrumentManager = emptyManager,
      isRunning = False,
      stats = \<lparr>dailyTradeCount = 2, dailyVolume = 300, lastReset = 0, totalTradeCount = 5,
               totalVolume = 750, matchingAttempts = 40, successfulMatches = 2\<rparr>\<rparr>"

text \<open>
  Claim C10. \<open>start\<close> on a stopped engine stores zero into every counter of the statistics, the
  lifetime counters \<open>totalTradeCount\<close> and \<open>totalVolume\<close> included, and sets \<open>lastReset\<close> to
  the clock; hence the statistics after a \<open>stop\<close> followed by a \<open>start\<close> are all zero, whatever
  they were before.
\<close>

theorem start_zeroes_lifetime_counters:
  "(\<not> isRunning eng \<longrightarrow> stats (start now eng) = zeroStats now \<and> isRunning (start now eng)) \<and>
   stats (start now (stop eng)) = zeroStats now"
  by (simp add: start_def stop_def zeroStats_def)

theorem start_zeroes_lifetime_counters_witness:
  "\<not> isRunning tradedEngine \<and> totalTradeCount (stats tradedEngine) = 5 \<and>
   totalVolume (stats tradedEngine) = 750 \<and>
   totalTradeCount (stats (start 86400 tradedEngine)) = 0 \<and>
   totalVolume (stats (start 86400 tradedEngine)) = 0 \<and>
   stats (start 86400 tradedEngine) = zeroStats 86400"
  using start_zeroes_lifetime_counters [of tradedEngine 86400]
  by (simp add: tradedEngine_def zeroStats_def)

section \<open>Registry uniqueness\<close>

text \<open>
  The invariant of the instrument manager: the set holds exactly the keys of the stored
  instruments, and no two stored instruments share a key.
\<close>

definition registryInv :: "InstrumentManager \<Rightarrow> bool" where
  "registryInv im \<longleftrightarrow>
     instrumentSet im = instrumentKey ` set (instruments im) \<and>
     distinct (map instrumentKey (instruments im))"

text \<open>The instruments registered by the demonstration in main.cpp, up to name and lot size.\<close>

definition exampleInstrument :: "int \<Rightarrow> string \<Rightarrow> string \<Rightarrow> string \<Rightarrow> int \<Rightarrow> Instrument" where
  "exampleInstrument i mic cur nm lot =
     \<lparr>Instrument.idinstrument = i, Instrument.marketIdentificationCode = mic,
      Instrument.tradingCurrency = cur, name = nm,
      issue = 20220101, state = ACTIVE, refprice = 150, idtradinggroup = 1001, lotsize = lot,
      pricedecimal = 2, currentorderid = 1, currenttradeid = 1, idapf = 2022\<rparr>"

lemma registryInv_empty: "registryInv emptyManager"
  by (simp add: registryInv_def emptyManager_def)

lemma registryInv_addInstrument:
  "registryInv im \<Longrightarrow> registryInv (snd (addInstrument x im))"
  by (auto simp: registryInv_def addInstrument_def isUniqueInstrument_def)

lemma registryInv_addInstruments:
  "registryInv im \<Longrightarrow> registryInv (addInstruments xs im)"
  by (induction xs arbitrary: im) (simp_all add: registryInv_addInstrument)

lemma find_append:
  "find P (xs @ ys) = (case find P xs of Some x \<Rightarrow> Some x | None \<Rightarrow> find P ys)"
  by (induction xs) auto

lemma find_addInstruments:
  "registryInv im \<Longrightarrow>
     find (\<lambda>i. instrumentKey i = k) (instruments (addInstruments xs im)) =
       (case find (\<lambda>i. instrumentKey i = k) (instruments im) of
          Some i \<Rightarrow> Some i
        | None \<Rightarrow> find (\<lambda>i. instrumentKey i = k) xs)"
proof (induction xs arbitrary: im)
  case Nil
  then show ?case by (simp split: option.splits)
next
  case (Cons x xs)
  have inv': "registryInv (snd (addInstrument x im))"
    using Cons.prems by (rule registryInv_addInstrument)
  show ?case
  proof (cases "instrumentKey x \<in> instrumentSet im")
    case True
    then have same: "snd (addInstrument x im) = im"
      by (simp add: addInstrument_def isUniqueInstrument_def)
    from True Cons.prems have "instrumentKey x = k \<Longrightarrow>
        find (\<lambda>i. instrumentKey i = k) (instruments im) \<noteq> None"
      by (auto simp: registryInv_def find_None_iff)
    then show ?thesis
      using Cons.IH [OF inv'] same by (auto split: option.splits)
  next
    case False
    then have app: "instruments (snd (addInstrument x im)) = instruments im @ [x]"
      by (simp add: addInstrument_def isUniqueInstrument_def)
    show ?thesis
      using Cons.IH [OF inv'] by (simp add: app find_append split: option.splits)
  qed
qed

text \<open>
  Claim C9. After any sequence \<open>xs\<close> of registrations into an empty manager, the stored
  instruments have pairwise distinct keys, the set holds exactly their keys, and for every key
  \<open>k\<close> the stored instrument with key \<open>k\<close> is the first instrument of \<open>xs\<close> with that key
  (none is stored when \<open>xs\<close> has none). A further registration of \<open>x\<close> returns true, inserts
  the key and appends \<open>x\<close> at the end of the list exactly when no stored instrument has the key
  of \<open>x\<close>; otherwise it returns false and leaves the manager as it was.
\<close>

theorem registry_first_registration_wins:
  "distinct (map instrumentKey (instruments (addInstruments xs emptyManager))) \<and>
   instrumentSet (addInstruments xs emptyManager) =
     instrumentKey ` set (instruments (addInstruments xs emptyManager)) \<and>
   find (\<lambda>i. instrumentKey i = k) (instruments (addInstruments xs emptyManager)) =
     find (\<lambda>i. instrumentKey i = k) xs \<and>
   addInstrument x (addInstruments xs emptyManager) =
     (if instrumentKey x \<notin> instrumentKey ` set (instruments (addInstruments xs emptyManager))
      then (True, (addInstruments xs emptyManager)
                    \<lparr>instrumentSet := insert (instrumentKey x)
                                         (instrumentSet (addInstruments xs emptyManager)),
                     instruments := instruments (addInstruments xs emptyManager) @ [x]\<rparr>)
      else (False, addInstruments xs emptyManager))"
proof -
  have inv: "registryInv (addInstruments xs emptyManager)"
    by (rule registryInv_addInstruments [OF registryInv_empty])
  have f: "find (\<lambda>i. instrumentKey i = k) (instruments (addInstruments xs emptyManager)) =
     find (\<lambda>i. instrumentKey i = k) xs"
    using find_addInstruments [OF registryInv_empty, of k xs] by (simp add: emptyManager_def)
  from inv f show ?thesis
    by (simp add: registryInv_def addInstrument_def isUniqueInstrument_def)
qed

text \<open>A second registration of the key of \<open>aapl\<close>, with another name and lot size, is refused.\<close>

definition aapl :: Instrument where "aapl = exampleInstrument 1 ''XPAR'' ''EUR'' ''AAPL'' 100"
definition msft :: Instrument where "msft = exampleInstrument 2 ''XPAR'' ''EUR'' ''MSFT'' 400"
definition aapl2 :: Instrument where "aapl2 = exampleInstrument 1 ''XPAR'' ''EUR'' ''AAPL-BIS'' 50"

theorem registry_first_registration_wins_witness:
  "instruments (addInstruments [aapl, msft, aapl2] emptyManager) = [aapl, msft] \<and>
   find (\<lambda>i. instrumentKey i = (1, ''XPAR'', ''EUR'')) [aapl, msft, aapl2] = Some aapl \<and>
   find (\<lambda>i. instrumentKey i = (1, ''XPAR'', ''EUR''))
     (instruments (addInstruments [aapl, msft, aapl2] emptyManager)) = Some aapl \<and>
   addInstrument aapl2 (addInstruments [aapl, msft] emptyManager) =
     (False, addInstruments [aapl, msft] emptyManager)"
  using registry_first_registration_wins [of "[aapl, msft, aapl2]" "(1, ''XPAR'', ''EUR'')" aapl2]
    registry_first_registration_wins [of "[aapl, msft]" "(1, ''XPAR'', ''EUR'')" aapl2]
  by (simp add: aapl_def msft_def aapl2_def exampleInstrument_def emptyManager_def
      addInstrument_def isUniqueInstrument_def instrumentKey_def)


section \<open>Expiry of GTD orders\<close>

text \<open>
  The orders of the demonstration in main.cpp: routed to XPAR in EUR, DAY unless changed, with
  the clock started at 0.
\<close>

definition exampleOrder ::
  "int \<Rightarrow> OrderType \<Rightarrow> rat \<Rightarrow> int \<Rightarrow> time_point \<Rightarrow> int \<Rightarrow> Order" where
  "exampleOrder i side p q ts instr =
     \<lparr>idorder = i, marketIdentificationCode = ''XPAR'', tradingCurrency = ''EUR'',
      priority = ts, expirationDate = 0, price = p, quantity = q, originalqty = q,
      timeinforce = DAY, ordertype = side, limitType = LIMIT, idinstrument = instr,
      idfirm = 2001\<rparr>"

definition bid1001 :: Order where "bid1001 = exampleOrder 1001 BID 155 300 0 1"
definition ask2001 :: Order where "ask2001 = exampleOrder 2001 ASK 148 200 100 1"
definition gtd3001 :: Order where
  "gtd3001 = (exampleOrder 3001 ASK 152 100 0 1)\<lparr>timeinforce := GTD, expirationDate := hours 1\<rparr>"
definition ask3002 :: Order where "ask3002 = exampleOrder 3002 ASK 152 100 50 1"

text \<open>A book with a GTD ask that expires after one hour, queued in front of a DAY ask.\<close>

definition gtdEngine :: MatchingEngine where
  "gtdEngine =
     newMatchingEngine 0
       (newOrderBook\<lparr>bidOrders := [(148, [exampleOrder 1004 BID 148 300 0 1])],
                     askOrders := [(152, [gtd3001, ask3002])]\<rparr>)
       (addInstruments [aapl] emptyManager)"

lemma allOrders_eraseExpired:
  "allOrders (eraseExpired now ls) = filter (\<lambda>ord. \<not> expired now ord) (allOrders ls)"
  by (induction ls) (auto simp: eraseExpired_def allOrders_def)

lemma eraseExpired_levels:
  "map fst (eraseExpired now ls) = map fst ls \<and>
   map snd (eraseExpired now ls) = map (filter (\<lambda>ord. \<not> expired now ord)) (map snd ls)"
  by (induction ls) (auto simp: eraseExpired_def)

lemma not_expired_iff:
  "\<not> expired now ord \<longleftrightarrow> timeinforce ord = DAY \<or> now < expirationDate ord"
  by (cases "timeinforce ord") (auto simp: expired_def)

text \<open>
  Claim C8. After \<open>checkGTDOrders\<close> at time \<open>now\<close>, both sides have the price levels they
  had, and every queue is the queue it was with the GTD orders of \<open>expirationDate \<le> now\<close>
  taken out: no such order is left on either side, and every DAY order and every GTD order that
  expires later is still there, the same record, at its level and in the same order relative to
  the other survivors. The trade log is not touched.
\<close>

theorem gtd_expiry_sweep:
  "map fst (bidOrders (orderBook (checkGTDOrders now eng))) = map fst (bidOrders (orderBook eng)) \<and>
   map fst (askOrders (orderBook (checkGTDOrders now eng))) = map fst (askOrders (orderBook eng)) \<and>
   map snd (bidOrders (orderBook (checkGTDOrders now eng))) =
     map (filter (\<lambda>ord. timeinforce ord = DAY \<or> now < expirationDate ord))
       (map snd (bidOrders (orderBook eng))) \<and>
   map snd (askOrders (orderBook (checkGTDOrders now eng))) =
     map (filter (\<lambda>ord. timeinforce ord = DAY \<or> now < expirationDate ord))
       (map snd (askOrders (orderBook eng))) \<and>
   (\<forall>ord \<in> set (allOrders (bidOrders (orderBook (checkGTDOrders now eng)))) \<union>
              set (allOrders (askOrders (orderBook (checkGTDOrders now eng)))).
       \<not> (timeinforce ord = GTD \<and> expirationDate ord \<le> now)) \<and>
   trades (orderBook (checkGTDOrders now eng)) = trades (orderBook eng)"
proof -
  have e: "(\<lambda>ord. \<not> expired now ord) = (\<lambda>ord. timeinforce ord = DAY \<or> now < expirationDate ord)"
    by (rule ext) (rule not_expired_iff)
  show ?thesis
    using eraseExpired_levels [of now "bidOrders (orderBook eng)"]
      eraseExpired_levels [of now "askOrders (orderBook eng)"]
    by (auto simp: checkGTDOrders_def allOrders_eraseExpired e)
qed

theorem gtd_expiry_sweep_witness:
  "askOrders (orderBook gtdEngine) = [(152, [gtd3001, ask3002])] \<and>
   timeinforce gtd3001 = GTD \<and> expirationDate gtd3001 \<le> hours 2 \<and> timeinforce ask3002 = DAY \<and>
   askOrders (orderBook (checkGTDOrders (hours 2) gtdEngine)) = [(152, [ask3002])] \<and>
   bidOrders (orderBook (checkGTDOrders (hours 2) gtdEngine)) = bidOrders (orderBook gtdEngine) \<and>
   allOrders (askOrders (orderBook (checkGTDOrders (hours 2) gtdEngine))) = [ask3002]"
  using gtd_expiry_sweep [of "hours 2" gtdEngine]
  by (simp add: gtdEngine_def newMatchingEngine_def newOrderBook_def checkGTDOrders_def
      eraseExpired_def expired_def gtd3001_def ask3002_def exampleOrder_def hours_def)

section \<open>Daily reset\<close>

text \<open>An engine whose book holds one DAY bid and whose counters are not zero.\<close>

definition dayEngine :: MatchingEngine where
  "dayEngine =
     (newMatchingEngine 0 (newOrderBook\<lparr>bidOrders := [(155, [bid1001])]\<rparr>)
        (addInstruments [aapl] emptyManager))
       \<lparr>stats := \<lparr>dailyTradeCount = 2, dailyVolume = 300, lastReset = 0, totalTradeCount = 5,
                   totalVolume = 750, matchingAttempts = 40, successfulMatches = 2\<rparr>\<rparr>"

text \<open>
  Claim C7 says that no DAY order is left in the book after the daily reset of the worker. The
  reset of a book that holds the DAY bid 1001, 25 hours after the last one, takes place and
  leaves that bid in the book.
\<close>

theorem daily_reset_keeps_day_orders_counterexample:
  "hours 25 - 0 \<ge> hours 24 \<and>
   fst (runDailyReset (hours 25) 0 dayEngine) = hours 25 \<and>
   dailyTradeCount (stats (snd (runDailyReset (hours 25) 0 dayEngine))) = 0 \<and>
   bidOrders (orderBook (snd (runDailyReset (hours 25) 0 dayEngine))) = [(155, [bid1001])] \<and>
   timeinforce bid1001 = DAY"
  by (simp add: runDailyReset_def resetDailyStats_def dayEngine_def newMatchingEngine_def
      newOrderBook_def bid1001_def exampleOrder_def hours_def)

text \<open>
  Claim C7, amended. The daily reset of the worker does not touch the order book: every order,
  DAY or GTD, that rests in the book before the reset step rests there after it. When the step
  fires (more than 24 hours after the last reset), it zeroes the daily counters and the two
  matching counters and sets \<open>lastReset\<close>, and nothing else.
\<close>

theorem daily_reset_leaves_book:
  "orderBook (snd (runDailyReset now lastStatsReset eng)) = orderBook eng \<and>
   orderBook (resetDailyStats now eng) = orderBook eng \<and>
   (now - lastStatsReset > hours 24 \<longrightarrow>
      runDailyReset now lastStatsReset eng =
        (now, eng\<lparr>stats := (stats eng)\<lparr>dailyTradeCount := 0, dailyVolume := 0,
                                         matchingAttempts := 0, successfulMatches := 0,
                                         lastReset := now\<rparr>\<rparr>))"
  by (simp add: runDailyReset_def resetDailyStats_def)

theorem daily_reset_leaves_book_witness:
  "hours 25 - 0 > hours 24 \<and>
   orderBook (snd (runDailyReset (hours 25) 0 dayEngine)) = orderBook dayEngine \<and>
   allOrders (bidOrders (orderBook (snd (runDailyReset (hours 25) 0 dayEngine)))) = [bid1001] \<and>
   totalTradeCount (stats (snd (runDailyReset (hours 25) 0 dayEngine))) = 5 \<and>
   dailyTradeCount (stats (snd (runDailyReset (hours 25) 0 dayEngine))) = 0"
  using daily_reset_leaves_book [of "hours 25" 0 dayEngine]
  by (simp add: dayEngine_def newMatchingEngine_def newOrderBook_def hours_def)


section \<open>Submission\<close>

lemma floor_int_half: "\<lfloor>rat_of_int n + 1 / 2\<rfloor> = n"
  by (rule floor_unique) simp_all

lemma c_round_numeral: "c_round (numeral n) = numeral n"
  using floor_int_half [of "numeral n"] by (simp add: c_round_def)

lemma instrumentMatches_key:
  "instrumentMatches i ord \<longleftrightarrow>
     instrumentKey i = (idinstrument ord, marketIdentificationCode ord, tradingCurrency ord)"
  by (auto simp: instrumentMatches_def instrumentKey_def)

lemma addAndValidateLoop_accepts_iff:
  "distinct (map instrumentKey xs) \<Longrightarrow>
     (\<exists>eng'. addAndValidateLoop now ord xs eng = Inr (True, eng')) \<longleftrightarrow>
     (\<exists>i\<in>set xs. instrumentMatches i ord \<and> validatePrice ord i \<and>
                  validateQuantity ord i = Inr True)"
proof (induction xs)
  case Nil
  then show ?case by simp
next
  case (Cons x xs)
  show ?case
  proof (cases "instrumentMatches x ord")
    case True
    then have "\<forall>i\<in>set xs. \<not> instrumentMatches i ord"
      using Cons.prems by (auto simp: instrumentMatches_key) (metis image_eqI)
    with True show ?thesis
      by (auto split: sum.splits)
  next
    case False
    with Cons show ?thesis by auto
  qed
qed

lemma addAndValidateLoop_accepted:
  "addAndValidateLoop now ord xs eng = Inr (True, eng') \<Longrightarrow> eng' = acceptOrder now ord eng"
  by (induction xs) (auto split: if_splits sum.splits)

lemma addAndValidateLoop_rejected:
  "addAndValidateLoop now ord xs eng = Inr (False, eng') \<Longrightarrow> eng' = eng"
  by (induction xs) (auto split: if_splits sum.splits)

text \<open>
  The engine of scenario 1: a fresh book, the instrument (1, XPAR, EUR) with lot size 100 and
  two price decimals, no order yet.
\<close>

definition scenarioEngine :: MatchingEngine where
  "scenarioEngine = newMatchingEngine 0 newOrderBook (addInstruments [aapl] emptyManager)"

text \<open>
  Claim C2. With a registry whose stored instruments have distinct keys (the invariant of the
  instrument manager), \<open>addAndValidateOrder\<close> returns true exactly when a registered
  instrument matches the routing triple of the order and both validators pass for the order
  against it; and when it returns false the engine, its order book included, is as it was.
\<close>

theorem submit_accepts_iff_valid:
  assumes "distinct (map instrumentKey (instruments (instrumentManager eng)))"
  shows "((\<exists>eng'. addAndValidateOrder now ord eng = Inr (True, eng')) \<longleftrightarrow>
          (\<exists>i\<in>set (instruments (instrumentManager eng)).
              instrumentMatches i ord \<and> validatePrice ord i \<and>
              validateQuantity ord i = Inr True)) \<and>
         (addAndValidateOrder now ord eng = Inr (False, eng') \<longrightarrow>
            eng' = eng \<and> orderBook eng' = orderBook eng)"
  using addAndValidateLoop_accepts_iff [OF assms, of now ord eng]
    addAndValidateLoop_rejected [of now ord "instruments (instrumentManager eng)" eng eng']
  by (auto simp: addAndValidateOrder_def)

theorem submit_accepts_iff_valid_witness:
  "distinct (map instrumentKey (instruments (instrumentManager scenarioEngine))) \<and>
   (\<exists>eng'. addAndValidateOrder 0 bid1001 scenarioEngine = Inr (True, eng')) \<and>
   addAndValidateOrder 0 (bid1001\<lparr>price := 150005 / 1000\<rparr>) scenarioEngine =
     Inr (False, scenarioEngine) \<and>
   addAndValidateOrder 0 (bid1001\<lparr>quantity := 150\<rparr>) scenarioEngine =
     Inr (False, scenarioEngine) \<and>
   addAndValidateOrder 0 (bid1001\<lparr>idinstrument := 2\<rparr>) scenarioEngine =
     Inr (False, scenarioEngine)"
proof -
  have d: "distinct (map instrumentKey (instruments (instrumentManager scenarioEngine)))"
    by code_simp
  have v: "\<exists>i\<in>set (instruments (instrumentManager scenarioEngine)).
             instrumentMatches i bid1001 \<and> validatePrice bid1001 i \<and>
             validateQuantity bid1001 i = Inr True"
    by code_simp
  have a: "\<exists>eng'. addAndValidateOrder 0 bid1001 scenarioEngine = Inr (True, eng')"
    using submit_accepts_iff_valid [OF d, of 0 bid1001] v by blast
  have r1: "addAndValidateOrder 0 (bid1001\<lparr>price := 150005 / 1000\<rparr>) scenarioEngine =
     Inr (False, scenarioEngine)"
    by code_simp
  have r2: "addAndValidateOrder 0 (bid1001\<lparr>quantity := 150\<rparr>) scenarioEngine =
     Inr (False, scenarioEngine)"
    by code_simp
  have r3: "addAndValidateOrder 0 (bid1001\<lparr>idinstrument := 2\<rparr>) scenarioEngine =
     Inr (False, scenarioEngine)"
    by code_simp
  from d a r1 r2 r3 show ?thesis by blast
qed

section \<open>Quantity conservation\<close>

text \<open>
  An order without its remaining quantity: what identifies it while the sweep fills it. The
  quantity resting on a side under an order id, the quantity bought and sold under an id in a
  list of trades, and the remaining quantity of the order with an id (zero when no such order
  rests on the side).
\<close>

definition orderIdentity :: "Order \<Rightarrow> Order" where
  "orderIdentity ord = ord\<lparr>quantity := 0\<rparr>"

definition sideQty :: "int \<Rightarrow> level list \<Rightarrow> int" where
  "sideQty i ls = sum_list (map quantity (filter (\<lambda>ord. idorder ord = i) (allOrders ls)))"

definition boughtQty :: "int \<Rightarrow> Trade list \<Rightarrow> int" where
  "boughtQty i ts = sum_list (map Trade.quantity (filter (\<lambda>t. buyOrderId t = i) ts))"

definition soldQty :: "int \<Rightarrow> Trade list \<Rightarrow> int" where
  "soldQty i ts = sum_list (map Trade.quantity (filter (\<lambda>t. sellOrderId t = i) ts))"

definition remainingQty :: "int \<Rightarrow> level list \<Rightarrow> int" where
  "remainingQty i ls =
     (case find (\<lambda>ord. idorder ord = i) (allOrders ls) of
        None \<Rightarrow> 0
      | Some ord \<Rightarrow> quantity ord)"

lemma orderIdentity_fill [simp]: "orderIdentity (fill k ord) = orderIdentity ord"
  by (simp add: orderIdentity_def fill_def)

lemma idorder_fill [simp]: "idorder (fill k ord) = idorder ord"
  by (simp add: fill_def)

lemma quantity_fill [simp]: "quantity (fill k ord) = quantity ord - k"
  by (simp add: fill_def)

lemma sum_quantity_nonzero:
  "sum_list (map quantity (filter (\<lambda>ord. quantity ord \<noteq> 0 \<and> P ord) xs)) =
   sum_list (map quantity (filter P xs))"
  by (induction xs) auto

lemma sideQty_cleanup [simp]: "sideQty i (cleanupLevels ls) = sideQty i ls"
  by (simp add: sideQty_def allOrders_cleanupLevels sum_quantity_nonzero)

lemma sideQty_fill:
  "sideQty i ((p, xs1 @ fill k x # xs2) # rest) =
     sideQty i ((p, xs1 @ x # xs2) # rest) - (if idorder x = i then k else 0)"
  by (simp add: sideQty_def)

lemma subseq_cleanup:
  "subseq (map orderIdentity (allOrders (cleanupLevels ls))) (map orderIdentity (allOrders ls))"
  by (simp add: allOrders_cleanupLevels subseq_map)

text \<open>The effect of one iteration on the quantities, the trade log and the order of a side.\<close>

lemma matchPass_effect:
  assumes ne: "bidOrders ob \<noteq> []" "askOrders ob \<noteq> []"
    and p: "matchPass now ob st n = (found, n', ob', st')"
  shows "\<exists>new. trades ob' = trades ob @ new \<and> n' = n + int (length new) \<and>
           sideQty i (bidOrders ob) - sideQty i (bidOrders ob') = boughtQty i new \<and>
           sideQty i (askOrders ob) - sideQty i (askOrders ob') = soldQty i new"
    and "subseq (map orderIdentity (allOrders (bidOrders ob')))
           (map orderIdentity (allOrders (bidOrders ob)))"
    and "subseq (map orderIdentity (allOrders (askOrders ob')))
           (map orderIdentity (allOrders (askOrders ob)))"
proof -
  from ne obtain bp bq brest ap aq arest where
    tops: "bidOrders ob = (bp, bq) # brest" "askOrders ob = (ap, aq) # arest"
    by (metis list.exhaust surj_pair)
  from tops have
    "(\<exists>new. trades ob' = trades ob @ new \<and> n' = n + int (length new) \<and>
           sideQty i (bidOrders ob) - sideQty i (bidOrders ob') = boughtQty i new \<and>
           sideQty i (askOrders ob) - sideQty i (askOrders ob') = soldQty i new) \<and>
     subseq (map orderIdentity (allOrders (bidOrders ob')))
           (map orderIdentity (allOrders (bidOrders ob))) \<and>
     subseq (map orderIdentity (allOrders (askOrders ob')))
           (map orderIdentity (allOrders (askOrders ob)))"
  proof (cases rule: matchPass_cases [where now = now and st = st and n = n])
    case none
    with p have ob': "ob' = cleanupExecutedOrders ob" and n': "n' = n" by simp_all
    have "trades ob' = trades ob @ [] \<and> n' = n + int (length ([] :: Trade list)) \<and>
           sideQty i (bidOrders ob) - sideQty i (bidOrders ob') = boughtQty i [] \<and>
           sideQty i (askOrders ob) - sideQty i (askOrders ob') = soldQty i []"
      by (simp add: ob' n' cleanupExecutedOrders_def boughtQty_def soldQty_def)
    then show ?thesis
      by (auto simp: ob' cleanupExecutedOrders_def subseq_cleanup simp del: append_Nil2)
  next
    case (hit bs1 b bs2 as1 a as2)
    let ?k = "min (quantity b) (quantity a)"
    let ?t = "pairTrade now (nextTradeId ob) b a"
    let ?bids = "(bp, bs1 @ fill ?k b # bs2) # brest"
    let ?asks = "(ap, as1 @ fill ?k a # as2) # arest"
    from p hit(6) have ob': "bidOrders ob' = cleanupLevels ?bids"
      "askOrders ob' = cleanupLevels ?asks" "trades ob' = trades ob @ [?t]" and n': "n' = n + 1"
      by (auto simp: cleanupExecutedOrders_def)
    have q: "sideQty i (bidOrders ob) - sideQty i (bidOrders ob') = boughtQty i [?t]"
      "sideQty i (askOrders ob) - sideQty i (askOrders ob') = soldQty i [?t]"
      by (simp_all add: ob' tops hit(1,2) sideQty_fill boughtQty_def soldQty_def pairTrade_def
          del: cleanupLevels.simps)
    have "map orderIdentity (allOrders ?bids) = map orderIdentity (allOrders (bidOrders ob))"
      "map orderIdentity (allOrders ?asks) = map orderIdentity (allOrders (askOrders ob))"
      by (simp_all add: tops hit(1,2))
    then have s: "subseq (map orderIdentity (allOrders (bidOrders ob')))
           (map orderIdentity (allOrders (bidOrders ob)))"
      "subseq (map orderIdentity (allOrders (askOrders ob')))
           (map orderIdentity (allOrders (askOrders ob)))"
      unfolding ob' using subseq_cleanup [of ?bids] subseq_cleanup [of ?asks]
      by (simp_all del: cleanupLevels.simps)
    from ob'(3) n' q have "\<exists>new. trades ob' = trades ob @ new \<and> n' = n + int (length new) \<and>
           sideQty i (bidOrders ob) - sideQty i (bidOrders ob') = boughtQty i new \<and>
           sideQty i (askOrders ob) - sideQty i (askOrders ob') = soldQty i new"
      by (intro exI [of _ "[?t]"]) simp
    with s show ?thesis by blast
  qed
  then show "\<exists>new. trades ob' = trades ob @ new \<and> n' = n + int (length new) \<and>
           sideQty i (bidOrders ob) - sideQty i (bidOrders ob') = boughtQty i new \<and>
           sideQty i (askOrders ob) - sideQty i (askOrders ob') = soldQty i new"
    and "subseq (map orderIdentity (allOrders (bidOrders ob')))
           (map orderIdentity (allOrders (bidOrders ob)))"
    and "subseq (map orderIdentity (allOrders (askOrders ob')))
           (map orderIdentity (allOrders (askOrders ob)))"
    by blast+
qed

text \<open>The invariant of the sweep that started on \<open>ob0\<close> with the counter at \<open>n0\<close>.\<close>

definition sweepInv :: "int \<Rightarrow> OrderBook \<Rightarrow> int \<Rightarrow> int \<Rightarrow> OrderBook \<Rightarrow> Stats \<Rightarrow> bool" where
  "sweepInv i ob0 n0 n ob st \<longleftrightarrow>
     (\<exists>new. trades ob = trades ob0 @ new \<and> n = n0 + int (length new) \<and>
        sideQty i (bidOrders ob0) - sideQty i (bidOrders ob) = boughtQty i new \<and>
        sideQty i (askOrders ob0) - sideQty i (askOrders ob) = soldQty i new) \<and>
     subseq (map orderIdentity (allOrders (bidOrders ob)))
       (map orderIdentity (allOrders (bidOrders ob0))) \<and>
     subseq (map orderIdentity (allOrders (askOrders ob)))
       (map orderIdentity (allOrders (askOrders ob0)))"

lemma boughtQty_append [simp]: "boughtQty i (xs @ ys) = boughtQty i xs + boughtQty i ys"
  by (simp add: boughtQty_def)

lemma soldQty_append [simp]: "soldQty i (xs @ ys) = soldQty i xs + soldQty i ys"
  by (simp add: soldQty_def)

lemma sweepInv_step:
  assumes "sweepInv i ob0 n0 n ob st" "bidOrders ob \<noteq> []" "askOrders ob \<noteq> []"
    "matchPass now ob st n = (found, n', ob', st')"
  shows "sweepInv i ob0 n0 n' ob' st'"
proof -
  from assms(1) obtain new where new: "trades ob = trades ob0 @ new" "n = n0 + int (length new)"
    "sideQty i (bidOrders ob0) - sideQty i (bidOrders ob) = boughtQty i new"
    "sideQty i (askOrders ob0) - sideQty i (askOrders ob) = soldQty i new"
    and s: "subseq (map orderIdentity (allOrders (bidOrders ob)))
       (map orderIdentity (allOrders (bidOrders ob0)))"
     "subseq (map orderIdentity (allOrders (askOrders ob)))
       (map orderIdentity (allOrders (askOrders ob0)))"
    unfolding sweepInv_def by blast
  from matchPass_effect(1) [OF assms(2,3,4), of i] obtain new' where
    new': "trades ob' = trades ob @ new'" "n' = n + int (length new')"
    "sideQty i (bidOrders ob) - sideQty i (bidOrders ob') = boughtQty i new'"
    "sideQty i (askOrders ob) - sideQty i (askOrders ob') = soldQty i new'"
    by blast
  have "trades ob' = trades ob0 @ (new @ new') \<and> n' = n0 + int (length (new @ new')) \<and>
        sideQty i (bidOrders ob0) - sideQty i (bidOrders ob') = boughtQty i (new @ new') \<and>
        sideQty i (askOrders ob0) - sideQty i (askOrders ob') = soldQty i (new @ new')"
    using new new' by simp
  then have 1: "\<exists>new. trades ob' = trades ob0 @ new \<and> n' = n0 + int (length new) \<and>
        sideQty i (bidOrders ob0) - sideQty i (bidOrders ob') = boughtQty i new \<and>
        sideQty i (askOrders ob0) - sideQty i (askOrders ob') = soldQty i new"
    by blast
  have 2: "subseq (map orderIdentity (allOrders (bidOrders ob')))
       (map orderIdentity (allOrders (bidOrders ob0)))"
    using matchPass_effect(2) [OF assms(2,3,4)] s(1) by (rule subseq_order.trans)
  have 3: "subseq (map orderIdentity (allOrders (askOrders ob')))
       (map orderIdentity (allOrders (askOrders ob0)))"
    using matchPass_effect(3) [OF assms(2,3,4)] s(2) by (rule subseq_order.trans)
  from 1 2 3 show ?thesis unfolding sweepInv_def by blast
qed

lemma matchOrders_sweepInv:
  assumes "matchOrders now ob st = (k, ob', st')"
  shows "sweepInv i ob 0 k ob' st'"
proof -
  have "sweepInv i ob 0 0 ob st"
    by (simp add: sweepInv_def boughtQty_def soldQty_def)
  then have "case matchLoop now ob st 0 of (n', ob', st') \<Rightarrow> sweepInv i ob 0 n' ob' st'"
    by (rule matchLoop_rule) (rule sweepInv_step)
  with assms show ?thesis by (simp add: matchOrders_def)
qed

text \<open>The trades a sweep appended to the log.\<close>

definition sweepTrades :: "OrderBook \<Rightarrow> OrderBook \<Rightarrow> Trade list" where
  "sweepTrades ob ob' = drop (length (trades ob)) (trades ob')"

lemma subseq_singleton_right: "subseq ys [x] \<Longrightarrow> ys = [] \<or> ys = [x]"
  by (cases ys) (auto split: if_splits)

lemma find_filter: "find P xs = (case filter P xs of [] \<Rightarrow> None | x # _ \<Rightarrow> Some x)"
  by (induction xs) auto

lemma idorder_orderIdentity [simp]: "idorder (orderIdentity ord) = idorder ord"
  by (simp add: orderIdentity_def)

lemma orderIdentity_eqD: "orderIdentity o' = orderIdentity ord \<Longrightarrow> o' = ord\<lparr>quantity := quantity o'\<rparr>"
  by (cases ord, cases o') (simp add: orderIdentity_def)

lemma unique_order_survives:
  assumes u: "filter (\<lambda>x. idorder x = i) xs = [ord]"
    and s: "subseq (map orderIdentity xs') (map orderIdentity xs)"
  shows "filter (\<lambda>x. idorder x = i) xs' = [] \<or>
         (\<exists>o'. filter (\<lambda>x. idorder x = i) xs' = [o'] \<and> o' = ord\<lparr>quantity := quantity o'\<rparr>)"
proof -
  have m: "\<And>zs. map orderIdentity (filter (\<lambda>x. idorder x = i) zs) =
               filter (\<lambda>x. idorder x = i) (map orderIdentity zs)"
    by (simp add: filter_map comp_def)
  have "subseq (filter (\<lambda>x. idorder x = i) (map orderIdentity xs'))
           (filter (\<lambda>x. idorder x = i) (map orderIdentity xs))"
    using s by (rule subseq_filter)
  then have "subseq (map orderIdentity (filter (\<lambda>x. idorder x = i) xs')) [orderIdentity ord]"
    by (simp add: m [symmetric] u)
  then have "map orderIdentity (filter (\<lambda>x. idorder x = i) xs') = [] \<or>
             map orderIdentity (filter (\<lambda>x. idorder x = i) xs') = [orderIdentity ord]"
    by (rule subseq_singleton_right)
  then show ?thesis
    by (auto simp: map_eq_Cons_conv dest: orderIdentity_eqD)
qed

lemma sideQty_unique:
  "filter (\<lambda>x. idorder x = i) (allOrders ls) = [ord] \<Longrightarrow>
     sideQty i ls = quantity ord \<and> remainingQty i ls = quantity ord"
  by (simp add: sideQty_def remainingQty_def find_filter)

lemma sideQty_none:
  "filter (\<lambda>x. idorder x = i) (allOrders ls) = [] \<Longrightarrow>
     sideQty i ls = 0 \<and> remainingQty i ls = 0"
  by (simp add: sideQty_def remainingQty_def find_filter)

lemma side_conservation:
  assumes u: "filter (\<lambda>x. idorder x = i) (allOrders ls) = [ord]"
    and s: "subseq (map orderIdentity (allOrders ls')) (map orderIdentity (allOrders ls))"
    and q: "sideQty i ls - sideQty i ls' = d"
  shows "(originalqty ord - remainingQty i ls') - (originalqty ord - quantity ord) = d \<and>
         (find (\<lambda>x. idorder x = i) (allOrders ls') = None \<or>
          find (\<lambda>x. idorder x = i) (allOrders ls') =
            Some (ord\<lparr>quantity := remainingQty i ls'\<rparr>))"
proof -
  from unique_order_survives [OF u s] show ?thesis
  proof
    assume e: "filter (\<lambda>x. idorder x = i) (allOrders ls') = []"
    with q sideQty_unique [OF u] sideQty_none [OF e] show ?thesis
      by (simp add: find_filter)
  next
    assume "\<exists>o'. filter (\<lambda>x. idorder x = i) (allOrders ls') = [o'] \<and>
              o' = ord\<lparr>quantity := quantity o'\<rparr>"
    then obtain o' where o': "filter (\<lambda>x. idorder x = i) (allOrders ls') = [o']"
      "o' = ord\<lparr>quantity := quantity o'\<rparr>" by blast
    with q sideQty_unique [OF u] sideQty_unique [OF o'(1)] show ?thesis
      by (simp add: find_filter)
  qed
qed

text \<open>The book of the demonstration in main.cpp after its first two orders were added.\<close>

definition crossedBook :: OrderBook where
  "crossedBook = addOrder ask2001 (addOrder bid1001 newOrderBook)"

definition crossedAfter :: OrderBook where
  "crossedAfter =
     \<lparr>bidOrders = [(155, [bid1001\<lparr>quantity := 100\<rparr>])], askOrders = [],
      trades = [pairTrade 100 1 bid1001 ask2001], nextTradeId = 2, matchingEngine = False\<rparr>"

text \<open>
  Claim C4. A sweep appends its trades to the log and returns their number. For an order that
  is the only one of its side with its id when the sweep starts, the executed quantity
  (original minus remaining quantity) grows during the sweep by the sum of the quantities of
  the trades of this sweep that name the order, as buyer for a bid and as seller for an ask;
  the order is then either gone from the book, fully filled, or still there and unchanged but
  for its remaining quantity.
\<close>

theorem sweep_conserves_quantity:
  assumes m: "matchOrders now ob st = (k, ob', st')"
  shows "trades ob' = trades ob @ sweepTrades ob ob' \<and> k = int (length (sweepTrades ob ob')) \<and>
    (filter (\<lambda>x. idorder x = i) (allOrders (bidOrders ob)) = [ord] \<longrightarrow>
       (originalqty ord - remainingQty i (bidOrders ob')) - (originalqty ord - quantity ord) =
         boughtQty i (sweepTrades ob ob') \<and>
       (find (\<lambda>x. idorder x = i) (allOrders (bidOrders ob')) = None \<or>
        find (\<lambda>x. idorder x = i) (allOrders (bidOrders ob')) =
          Some (ord\<lparr>quantity := remainingQty i (bidOrders ob')\<rparr>))) \<and>
    (filter (\<lambda>x. idorder x = i) (allOrders (askOrders ob)) = [ord] \<longrightarrow>
       (originalqty ord - remainingQty i (askOrders ob')) - (originalqty ord - quantity ord) =
         soldQty i (sweepTrades ob ob') \<and>
       (find (\<lambda>x. idorder x = i) (allOrders (askOrders ob')) = None \<or>
        find (\<lambda>x. idorder x = i) (allOrders (askOrders ob')) =
          Some (ord\<lparr>quantity := remainingQty i (askOrders ob')\<rparr>)))"
proof -
  from matchOrders_sweepInv [OF m, of i] obtain new where
    new: "trades ob' = trades ob @ new" "k = int (length new)"
      "sideQty i (bidOrders ob) - sideQty i (bidOrders ob') = boughtQty i new"
      "sideQty i (askOrders ob) - sideQty i (askOrders ob') = soldQty i new"
    and s: "subseq (map orderIdentity (allOrders (bidOrders ob')))
       (map orderIdentity (allOrders (bidOrders ob)))"
      "subseq (map orderIdentity (allOrders (askOrders ob')))
       (map orderIdentity (allOrders (askOrders ob)))"
    unfolding sweepInv_def by auto
  have sw: "sweepTrades ob ob' = new" by (simp add: sweepTrades_def new(1))
  show ?thesis
    unfolding sw using new(1,2) side_conservation [OF _ s(1) new(3)]
      side_conservation [OF _ s(2) new(4)] by blast
qed


theorem sweep_conserves_quantity_witness:
  "matchOrders 100 crossedBook (zeroStats 0) = (1, crossedAfter, zeroStats 0) \<and>
   filter (\<lambda>x. idorder x = 1001) (allOrders (bidOrders crossedBook)) = [bid1001] \<and>
   filter (\<lambda>x. idorder x = 2001) (allOrders (askOrders crossedBook)) = [ask2001] \<and>
   (originalqty bid1001 - remainingQty 1001 (bidOrders crossedAfter)) -
     (originalqty bid1001 - quantity bid1001) = boughtQty 1001 (sweepTrades crossedBook crossedAfter) \<and>
   (originalqty ask2001 - remainingQty 2001 (askOrders crossedAfter)) -
     (originalqty ask2001 - quantity ask2001) = soldQty 2001 (sweepTrades crossedBook crossedAfter) \<and>
   boughtQty 1001 (sweepTrades crossedBook crossedAfter) = 200 \<and>
   soldQty 2001 (sweepTrades crossedBook crossedAfter) = 200 \<and>
   remainingQty 1001 (bidOrders crossedAfter) = 100 \<and>
   remainingQty 2001 (askOrders crossedAfter) = 0"
proof -
  have m: "matchOrders 100 crossedBook (zeroStats 0) = (1, crossedAfter, zeroStats 0)"
    by code_simp
  have u: "filter (\<lambda>x. idorder x = 1001) (allOrders (bidOrders crossedBook)) = [bid1001]"
    "filter (\<lambda>x. idorder x = 2001) (allOrders (askOrders crossedBook)) = [ask2001]"
    by code_simp+
  have e: "boughtQty 1001 (sweepTrades crossedBook crossedAfter) = 200"
    "soldQty 2001 (sweepTrades crossedBook crossedAfter) = 200"
    "remainingQty 1001 (bidOrders crossedAfter) = 100"
    "remainingQty 2001 (askOrders crossedAfter) = 0"
    by code_simp+
  from sweep_conserves_quantity [OF m, of 1001 bid1001] u(1)
  have b: "(originalqty bid1001 - remainingQty 1001 (bidOrders crossedAfter)) -
     (originalqty bid1001 - quantity bid1001) = boughtQty 1001 (sweepTrades crossedBook crossedAfter)"
    by blast
  from sweep_conserves_quantity [OF m, of 2001 ask2001] u(2)
  have a: "(originalqty ask2001 - remainingQty 2001 (askOrders crossedAfter)) -
     (originalqty ask2001 - quantity ask2001) = soldQty 2001 (sweepTrades crossedBook crossedAfter)"
    by blast
  from m u e a b show ?thesis by blast
qed

section \<open>Price-time priority\<close>

text \<open>
  The invariant of a side: the keys of the map are strictly ordered by \<open>better\<close>, every
  order sits in the queue of its own price, and every queue is in the order of the priority
  timestamps. \<open>precedes\<close> is the priority of one order over another.
\<close>

definition ptpSide :: "(rat \<Rightarrow> rat \<Rightarrow> bool) \<Rightarrow> level list \<Rightarrow> bool" where
  "ptpSide better ls \<longleftrightarrow>
     sorted_wrt better (map fst ls) \<and>
     (\<forall>l\<in>set ls. (\<forall>ord\<in>set (snd l). price ord = fst l) \<and> sorted (map priority (snd l)))"

definition priceTimePriority :: "OrderBook \<Rightarrow> bool" where
  "priceTimePriority ob \<longleftrightarrow>
     ptpSide (\<lambda>a b. a > b) (bidOrders ob) \<and> ptpSide (\<lambda>a b. a < b) (askOrders ob)"

definition precedes :: "(rat \<Rightarrow> rat \<Rightarrow> bool) \<Rightarrow> Order \<Rightarrow> Order \<Rightarrow> bool" where
  "precedes better a b \<longleftrightarrow>
     better (price a) (price b) \<or> (price a = price b \<and> priority a \<le> priority b)"

lemma queue_precedes:
  "\<forall>ord\<in>set q. price ord = p \<Longrightarrow> sorted (map priority q) \<Longrightarrow> sorted_wrt (precedes better) q"
  by (induction q) (auto simp: precedes_def)

lemma ptpSide_traversal:
  "ptpSide better ls \<Longrightarrow> sorted_wrt (precedes better) (allOrders ls)"
proof (induction ls)
  case Nil
  then show ?case by simp
next
  case (Cons l ls)
  obtain p q where l: "l = (p, q)" by (cases l)
  from Cons.prems have rest: "ptpSide better ls"
    by (simp add: ptpSide_def)
  from Cons.prems have q: "\<forall>ord\<in>set q. price ord = p" "sorted (map priority q)"
    by (simp_all add: ptpSide_def l)
  from Cons.prems have later: "\<forall>l'\<in>set ls. better p (fst l') \<and> (\<forall>ord\<in>set (snd l'). price ord = fst l')"
    by (auto simp: ptpSide_def l)
  have cross: "\<forall>x\<in>set q. \<forall>y\<in>set (allOrders ls). precedes better x y"
    using q(1) later by (fastforce simp: allOrders_def precedes_def)
  show ?case
    using Cons.IH [OF rest] queue_precedes [OF q] cross
    by (simp add: l sorted_wrt_append)
qed

lemma map_push_back_keys:
  "(k, q) \<in> set (map_push_back cmp ord ls) \<Longrightarrow> k = price ord \<or> k \<in> fst ` set ls"
  by (induction ls) (force split: if_splits)+

lemma ptpSide_push_back:
  assumes tri: "\<And>a b. \<not> better a b \<Longrightarrow> \<not> better b a \<Longrightarrow> a = b"
    and tr: "\<And>a b c. better a b \<Longrightarrow> better b c \<Longrightarrow> better a c"
    and inv: "ptpSide better ls"
    and late: "\<forall>x\<in>set (allOrders ls). priority x \<le> priority ord"
  shows "ptpSide better (map_push_back better ord ls)"
  using inv late
proof (induction ls)
  case Nil
  then show ?case by (simp add: ptpSide_def)
next
  case (Cons l ls)
  obtain p q where l: "l = (p, q)" by (cases l)
  from Cons.prems(1) have rest: "ptpSide better ls"
    by (simp add: ptpSide_def)
  from Cons.prems(2) have late': "\<forall>x\<in>set (allOrders ls). priority x \<le> priority ord"
    and lateq: "\<forall>x\<in>set q. priority x \<le> priority ord"
    by (simp_all add: l)
  consider (before) "better (price ord) p"
    | (after) "\<not> better (price ord) p" "better p (price ord)"
    | (same) "\<not> better (price ord) p" "\<not> better p (price ord)"
    by blast
  then show ?case
  proof cases
    case before
    then have "\<forall>k\<in>set (map fst ls). better (price ord) k"
      using Cons.prems(1) tr by (auto simp: ptpSide_def l)
    with before Cons.prems(1) show ?thesis
      by (simp add: ptpSide_def l)
  next
    case after
    have ih: "ptpSide better (map_push_back better ord ls)"
      using Cons.IH [OF rest late'] .
    have "\<forall>k\<in>set (map fst (map_push_back better ord ls)). better p k"
      using after(2) Cons.prems(1)
      by (auto simp: ptpSide_def l dest!: map_push_back_keys)
    with after ih Cons.prems(1) show ?thesis
      by (simp add: ptpSide_def l)
  next
    case same
    then have "price ord = p" using tri by blast
    with same Cons.prems(1) lateq show ?thesis
      by (auto simp: ptpSide_def l sorted_append)
  qed
qed

lemma cleanupLevels_keys: "(k, q) \<in> set (cleanupLevels ls) \<Longrightarrow> k \<in> fst ` set ls"
  by (induction ls) (force simp: Let_def split: if_splits)+

lemma ptpSide_cleanup: "ptpSide better ls \<Longrightarrow> ptpSide better (cleanupLevels ls)"
proof (induction ls)
  case Nil
  then show ?case by simp
next
  case (Cons l ls)
  obtain p q where l: "l = (p, q)" by (cases l)
  from Cons.prems have rest: "ptpSide better ls"
    by (simp add: ptpSide_def)
  have ih: "ptpSide better (cleanupLevels ls)" using Cons.IH [OF rest] .
  have "\<forall>k\<in>set (map fst (cleanupLevels ls)). better p k"
    using Cons.prems by (auto simp: ptpSide_def l dest!: cleanupLevels_keys)
  with ih Cons.prems show ?case
    by (auto simp: ptpSide_def l Let_def sorted_filter)
qed

lemma ptpSide_eraseExpired: "ptpSide better ls \<Longrightarrow> ptpSide better (eraseExpired now ls)"
proof -
  assume a: "ptpSide better ls"
  have k: "map fst (eraseExpired now ls) = map fst ls"
    by (induction ls) (auto simp: eraseExpired_def)
  have "\<forall>l\<in>set (eraseExpired now ls).
          (\<forall>ord\<in>set (snd l). price ord = fst l) \<and> sorted (map priority (snd l))"
    using a by (auto simp: ptpSide_def eraseExpired_def sorted_filter)
  with a k show ?thesis by (simp add: ptpSide_def)
qed

lemma ptpSide_fill:
  "ptpSide better ((p, xs1 @ x # xs2) # rest) \<Longrightarrow>
     ptpSide better ((p, xs1 @ fill k x # xs2) # rest)"
  by (simp add: ptpSide_def fill_def)

lemma priceTimePriority_pass:
  assumes "priceTimePriority ob" "bidOrders ob \<noteq> []" "askOrders ob \<noteq> []"
    "matchPass now ob st n = (found, n', ob', st')"
  shows "priceTimePriority ob'"
proof -
  from assms(2,3) obtain bp bq brest ap aq arest where
    tops: "bidOrders ob = (bp, bq) # brest" "askOrders ob = (ap, aq) # arest"
    by (metis list.exhaust surj_pair)
  from tops show ?thesis
  proof (cases rule: matchPass_cases [where now = now and st = st and n = n])
    case none
    with assms(1,4) show ?thesis
      by (auto simp: priceTimePriority_def cleanupExecutedOrders_def ptpSide_cleanup)
  next
    case (hit bs1 b bs2 as1 a as2)
    from assms(1) have "ptpSide (\<lambda>a b. a > b) ((bp, bs1 @ b # bs2) # brest)"
      "ptpSide (\<lambda>a b. a < b) ((ap, as1 @ a # as2) # arest)"
      by (simp_all add: priceTimePriority_def tops hit(1,2))
    then have "ptpSide (\<lambda>a b. a > b)
                 (cleanupLevels ((bp, bs1 @ fill (min (quantity b) (quantity a)) b # bs2) # brest))"
      "ptpSide (\<lambda>a b. a < b)
                 (cleanupLevels ((ap, as1 @ fill (min (quantity b) (quantity a)) a # as2) # arest))"
      by (blast intro: ptpSide_cleanup ptpSide_fill)+
    with assms(4) hit(6) show ?thesis
      by (auto simp: priceTimePriority_def cleanupExecutedOrders_def simp del: cleanupLevels.simps)
  qed
qed

lemma priceTimePriority_sweep:
  assumes "priceTimePriority ob"
  shows "priceTimePriority (fst (snd (matchOrders now ob st)))"
proof -
  have "case matchLoop now ob st 0 of (n', ob', st') \<Rightarrow> priceTimePriority ob'"
    using assms by (rule matchLoop_rule [where I = "\<lambda>n ob st. priceTimePriority ob"])
      (rule priceTimePriority_pass)
  then show ?thesis by (simp add: matchOrders_def split: prod.splits)
qed

lemma priceTimePriority_addOrder:
  assumes "priceTimePriority ob"
    and "\<forall>x\<in>set (allOrders (bidOrders ob)) \<union> set (allOrders (askOrders ob)).
           priority x \<le> priority ord"
  shows "priceTimePriority (addOrder ord ob)"
proof -
  have b: "ptpSide (\<lambda>a b. a > b) (map_push_back (\<lambda>a b. a > b) ord (bidOrders ob))"
    using assms by (intro ptpSide_push_back) (auto simp: priceTimePriority_def)
  have a: "ptpSide (\<lambda>a b. a < b) (map_push_back (\<lambda>a b. a < b) ord (askOrders ob))"
    using assms by (intro ptpSide_push_back) (auto simp: priceTimePriority_def)
  from a b assms(1) show ?thesis
    by (auto simp: addOrder_def priceTimePriority_def)
qed

lemma sweep_subseq:
  "subseq (map orderIdentity (allOrders (bidOrders (fst (snd (matchOrders now ob st))))))
     (map orderIdentity (allOrders (bidOrders ob))) \<and>
   subseq (map orderIdentity (allOrders (askOrders (fst (snd (matchOrders now ob st))))))
     (map orderIdentity (allOrders (askOrders ob)))"
proof -
  obtain k ob' st' where m: "matchOrders now ob st = (k, ob', st')"
    by (metis prod_cases3)
  from matchOrders_sweepInv [OF m, of 0] show ?thesis
    by (simp add: m sweepInv_def)
qed

text \<open>The two bids of scenario 2, at the price of bid 1001 and later than it.\<close>

definition bid1002 :: Order where "bid1002 = exampleOrder 1002 BID 155 200 200 1"
definition bid1003 :: Order where "bid1003 = exampleOrder 1003 BID 155 200 300 1"

text \<open>
  Claim C6. In a book that satisfies the invariant, the traversal of the bid side (of the ask
  side) lists the orders with higher (lower) prices first and, at one price, in the order of
  their priority timestamps. The invariant is kept by the insertion of an order that is not
  earlier than the orders in the book, by a matching sweep, by the cleanup and by the expiry
  sweep. Across a matching sweep the orders that stay are the same orders up to their
  remaining quantity, in the same relative order, and the cleanup removes exactly the orders
  of remaining quantity zero.
\<close>

theorem price_time_priority_invariant:
  assumes "priceTimePriority ob"
  shows "sorted_wrt (precedes (\<lambda>a b. a > b)) (allOrders (bidOrders ob)) \<and>
         sorted_wrt (precedes (\<lambda>a b. a < b)) (allOrders (askOrders ob)) \<and>
         ((\<forall>x\<in>set (allOrders (bidOrders ob)) \<union> set (allOrders (askOrders ob)).
              priority x \<le> priority ord) \<longrightarrow> priceTimePriority (addOrder ord ob)) \<and>
         priceTimePriority (fst (snd (matchOrders now ob st))) \<and>
         priceTimePriority (cleanupExecutedOrders ob) \<and>
         priceTimePriority (orderBook (checkGTDOrders now (eng\<lparr>orderBook := ob\<rparr>))) \<and>
         subseq (map orderIdentity (allOrders (bidOrders (fst (snd (matchOrders now ob st))))))
           (map orderIdentity (allOrders (bidOrders ob))) \<and>
         subseq (map orderIdentity (allOrders (askOrders (fst (snd (matchOrders now ob st))))))
           (map orderIdentity (allOrders (askOrders ob))) \<and>
         allOrders (bidOrders (cleanupExecutedOrders ob)) =
           filter (\<lambda>x. quantity x \<noteq> 0) (allOrders (bidOrders ob)) \<and>
         allOrders (askOrders (cleanupExecutedOrders ob)) =
           filter (\<lambda>x. quantity x \<noteq> 0) (allOrders (askOrders ob))"
proof -
  have t: "sorted_wrt (precedes (\<lambda>a b. a > b)) (allOrders (bidOrders ob))"
    "sorted_wrt (precedes (\<lambda>a b. a < b)) (allOrders (askOrders ob))"
    using assms by (simp_all add: priceTimePriority_def ptpSide_traversal)
  have c: "priceTimePriority (cleanupExecutedOrders ob)"
    using assms by (simp add: priceTimePriority_def cleanupExecutedOrders_def ptpSide_cleanup)
  have g: "priceTimePriority (orderBook (checkGTDOrders now (eng\<lparr>orderBook := ob\<rparr>)))"
    using assms by (simp add: priceTimePriority_def checkGTDOrders_def ptpSide_eraseExpired)
  have f: "allOrders (bidOrders (cleanupExecutedOrders ob)) =
           filter (\<lambda>x. quantity x \<noteq> 0) (allOrders (bidOrders ob))"
    "allOrders (askOrders (cleanupExecutedOrders ob)) =
           filter (\<lambda>x. quantity x \<noteq> 0) (allOrders (askOrders ob))"
    by (simp_all add: cleanupExecutedOrders_def allOrders_cleanupLevels)
  from t c g f priceTimePriority_addOrder [OF assms, of ord]
    priceTimePriority_sweep [OF assms, of now st] sweep_subseq [of now ob st]
  show ?thesis by blast
qed

theorem price_time_priority_invariant_witness:
  "priceTimePriority crossedBook \<and>
   fst (snd (matchOrders 100 crossedBook (zeroStats 0))) = crossedAfter \<and>
   priceTimePriority crossedAfter \<and>
   priceTimePriority (addOrder bid1002 crossedAfter) \<and>
   priceTimePriority (addOrder bid1003 (addOrder bid1002 crossedAfter)) \<and>
   bidOrders (addOrder bid1003 (addOrder bid1002 crossedAfter)) =
     [(155, [bid1001\<lparr>quantity := 100\<rparr>, bid1002, bid1003])]"
proof -
  have h: "priceTimePriority crossedBook" by code_simp
  have m: "fst (snd (matchOrders 100 crossedBook (zeroStats 0))) = crossedAfter" by code_simp
  from price_time_priority_invariant [OF h, of bid1002 100 "zeroStats 0"] m
  have a: "priceTimePriority crossedAfter" by simp
  have l2: "\<forall>x\<in>set (allOrders (bidOrders crossedAfter)) \<union> set (allOrders (askOrders crossedAfter)).
              priority x \<le> priority bid1002" by code_simp
  from price_time_priority_invariant [OF a, of bid1002] l2
  have b: "priceTimePriority (addOrder bid1002 crossedAfter)" by blast
  have l3: "\<forall>x\<in>set (allOrders (bidOrders (addOrder bid1002 crossedAfter))) \<union>
               set (allOrders (askOrders (addOrder bid1002 crossedAfter))).
              priority x \<le> priority bid1003" by code_simp
  from price_time_priority_invariant [OF b, of bid1003] l3
  have c: "priceTimePriority (addOrder bid1003 (addOrder bid1002 crossedAfter))" by blast
  have q: "bidOrders (addOrder bid1003 (addOrder bid1002 crossedAfter)) =
     [(155, [bid1001\<lparr>quantity := 100\<rparr>, bid1002, bid1003])]" by code_simp
  from h m a b c q show ?thesis by blast
qed


section \<open>The book after a sweep\<close>

text \<open>
  A book is clean when no price level is empty and no resting order has remaining quantity
  zero: the state the cleanup establishes. A side has a live top when it is empty or its best
  queue holds an order of remaining quantity other than zero. The top of a book is uncrossed
  when a side is empty, or the best bid price is below the best ask price, or no bid of the
  best bid queue is compatible with an ask of the best ask queue.
\<close>

definition cleanLevels :: "level list \<Rightarrow> bool" where
  "cleanLevels ls \<longleftrightarrow> (\<forall>l\<in>set ls. snd l \<noteq> [] \<and> (\<forall>ord\<in>set (snd l). quantity ord \<noteq> 0))"

definition cleanBook :: "OrderBook \<Rightarrow> bool" where
  "cleanBook ob \<longleftrightarrow> cleanLevels (bidOrders ob) \<and> cleanLevels (askOrders ob)"

definition uncrossedTop :: "OrderBook \<Rightarrow> bool" where
  "uncrossedTop ob \<longleftrightarrow>
     bidOrders ob = [] \<or> askOrders ob = [] \<or>
     fst (hd (bidOrders ob)) < fst (hd (askOrders ob)) \<or>
     (\<forall>b\<in>set (snd (hd (bidOrders ob))). \<forall>a\<in>set (snd (hd (askOrders ob))). \<not> compatible b a)"

definition liveTop :: "level list \<Rightarrow> bool" where
  "liveTop ls \<longleftrightarrow> ls = [] \<or> (\<exists>ord\<in>set (snd (hd ls)). quantity ord \<noteq> 0)"

definition liveBook :: "OrderBook \<Rightarrow> bool" where
  "liveBook ob \<longleftrightarrow> liveTop (bidOrders ob) \<and> liveTop (askOrders ob)"

lemma cleanLevels_cleanup: "cleanLevels (cleanupLevels ls)"
  by (induction ls) (auto simp: cleanLevels_def Let_def split: if_splits)

lemma cleanBook_cleanup: "cleanBook (cleanupExecutedOrders ob)"
  by (simp add: cleanBook_def cleanupExecutedOrders_def cleanLevels_cleanup)

lemma cleanBook_pass:
  "matchPass now ob st n = (found, n', ob', st') \<Longrightarrow> cleanBook ob'"
  by (auto simp: matchPass_def cleanBook_cleanup split: list.splits prod.splits)

lemma liveTop_clean: "cleanLevels ls \<Longrightarrow> liveTop ls"
  by (cases ls) (auto simp: cleanLevels_def liveTop_def neq_Nil_conv)

lemma liveBook_clean: "cleanBook ob \<Longrightarrow> liveBook ob"
  by (simp add: cleanBook_def liveBook_def liveTop_clean)

lemma cleanupLevels_liveTop:
  "liveTop ((p, q) # rest) \<Longrightarrow>
     cleanupLevels ((p, q) # rest) = (p, filter (\<lambda>ord. quantity ord \<noteq> 0) q) # cleanupLevels rest"
  by (auto simp: liveTop_def Let_def filter_empty_conv)

lemma matchLoop_exit:
  assumes "liveBook ob"
  shows "case matchLoop now ob st n of (n', ob', st') \<Rightarrow> liveBook ob' \<and> uncrossedTop ob'"
  using assms
proof (induction now ob st n rule: matchLoop.induct)
  case (1 now ob st n)
  show ?case
  proof (cases "bidOrders ob = [] \<or> askOrders ob = [] \<or>
                fst (hd (bidOrders ob)) < fst (hd (askOrders ob))")
    case True
    then show ?thesis using "1.prems" by (auto simp: matchLoop.simps uncrossedTop_def)
  next
    case False
    obtain found n' ob' st' where p: "matchPass now ob st n = (found, n', ob', st')"
      by (metis prod_cases4)
    have l': "liveBook ob'" using p by (intro liveBook_clean) (rule cleanBook_pass)
    show ?thesis
    proof (cases found)
      case True
      have "matchLoop now ob st n = matchLoop now ob' st' n'"
        using False p True by (subst matchLoop.simps) simp
      moreover have "case matchLoop now ob' st' n' of
                       (n', ob', st') \<Rightarrow> liveBook ob' \<and> uncrossedTop ob'"
        using "1.IH" [of found "(n', ob', st')" n' "(ob', st')" ob' st'] False p True l'
        by simp
      ultimately show ?thesis by simp
    next
      case f: False
      have r: "matchLoop now ob st n = (n', ob', st')"
        using False p f by (subst matchLoop.simps) simp
      from False obtain bp bq brest ap aq arest where
        tops: "bidOrders ob = (bp, bq) # brest" "askOrders ob = (ap, aq) # arest"
        by (metis list.exhaust surj_pair)
      from tops have "ob' = cleanupExecutedOrders ob \<and>
                      (\<forall>b\<in>set bq. \<forall>a\<in>set aq. \<not> compatible b a)"
      proof (cases rule: matchPass_cases [where now = now and st = st and n = n])
        case none
        with p show ?thesis by simp
      next
        case (hit bs1 b bs2 as1 a as2)
        with p f show ?thesis by simp
      qed
      then have none: "ob' = cleanupExecutedOrders ob"
        "\<forall>b\<in>set bq. \<forall>a\<in>set aq. \<not> compatible b a" by simp_all
      from "1.prems" tops have
        "bidOrders ob' = (bp, filter (\<lambda>ord. quantity ord \<noteq> 0) bq) # cleanupLevels brest"
        "askOrders ob' = (ap, filter (\<lambda>ord. quantity ord \<noteq> 0) aq) # cleanupLevels arest"
        by (simp_all add: none(1) cleanupExecutedOrders_def liveBook_def cleanupLevels_liveTop
            del: cleanupLevels.simps)
      with none(2) have "uncrossedTop ob'" by (simp add: uncrossedTop_def)
      with r l' show ?thesis by simp
    qed
  qed
qed

text \<open>
  Two instruments in one book: the best bid is for instrument 1, the bid below it and the only
  ask are for instrument 2 and cross at 99.
\<close>

definition bidA :: Order where "bidA = exampleOrder 4001 BID 100 100 0 1"
definition bidB :: Order where "bidB = exampleOrder 4002 BID 99 100 10 2"
definition askB :: Order where "askB = exampleOrder 4003 ASK 99 100 20 2"

definition mixedBook :: OrderBook where
  "mixedBook = addOrder askB (addOrder bidB (addOrder bidA newOrderBook))"

text \<open>
  Claim C1 says that after a sweep no compatible bid and ask are left with the bid price at or
  above the ask price, also below the top of the book. On \<open>mixedBook\<close> the sweep returns
  without a trade and leaves the book as it was, with both sides non-empty and the compatible
  pair \<open>bidB\<close>, \<open>askB\<close> crossed at 99: the scan looks at the two best queues only, and
  the loop is left when it finds no compatible pair there.
\<close>

theorem sweep_leaves_compatible_cross_counterexample:
  "matchOrders 30 mixedBook (zeroStats 0) = (0, mixedBook, zeroStats 0) \<and>
   bidOrders mixedBook = [(100, [bidA]), (99, [bidB])] \<and>
   askOrders mixedBook = [(99, [askB])] \<and>
   compatible bidB askB \<and> \<not> price bidB < price askB"
  by code_simp

text \<open>
  The expiry sweep empties queues without erasing their map entries. A sweep that meets an
  empty queue at the top finds no pair in it, and its cleanup then uncovers a top of book that
  it does not scan: here the GTD bid at 100 has expired, and the sweep returns with the
  compatible bid and ask at 99 at the top of the book.
\<close>

definition bidG :: Order where
  "bidG = (exampleOrder 4004 BID 100 100 0 2)\<lparr>timeinforce := GTD, expirationDate := hours 1\<rparr>"

definition emptiedBook :: OrderBook where
  "emptiedBook =
     orderBook (checkGTDOrders (hours 2)
       (newMatchingEngine 0 (addOrder bidB (addOrder bidG newOrderBook)) emptyManager))"

lemma sweep_over_emptied_level:
  "bidOrders emptiedBook = [(100, []), (99, [bidB])] \<and>
   matchOrders (hours 2) (addOrder askB emptiedBook) (zeroStats 0) =
     (0, emptiedBook\<lparr>bidOrders := [(99, [bidB])], askOrders := [(99, [askB])]\<rparr>, zeroStats 0) \<and>
   compatible bidB askB"
  by code_simp

text \<open>
  A book with a live top and an emptied level below it: the GTD bid at 98 has expired and its
  map entry is still there.
\<close>

definition bidG98 :: Order where
  "bidG98 = (exampleOrder 4005 BID 98 100 0 2)\<lparr>timeinforce := GTD, expirationDate := hours 1\<rparr>"

definition deepEmptiedBook :: OrderBook where
  "deepEmptiedBook =
     orderBook (checkGTDOrders (hours 2)
       (newMatchingEngine 0 (addOrder askB (addOrder bidG98 (addOrder bidA newOrderBook)))
          emptyManager))"

text \<open>
  Claim C1, amended. After a sweep that started on a book whose sides have a live top (each
  side is empty, or its best queue holds an order of remaining quantity other than zero), a
  side is empty, or the best bid price is below the best ask price, or no bid of the best bid
  queue is compatible with an ask of the best ask queue; and the sides of the book have a live
  top again. Emptied levels and filled orders below the top of the book are allowed.
\<close>

theorem sweep_uncrosses_top_of_book:
  assumes "liveBook ob"
  shows "uncrossedTop (fst (snd (matchOrders now ob st))) \<and>
         liveBook (fst (snd (matchOrders now ob st)))"
  using matchLoop_exit [OF assms, of now st 0]
  by (simp add: matchOrders_def split: prod.splits)

theorem sweep_uncrosses_top_of_book_witness:
  "liveBook crossedBook \<and> liveBook mixedBook \<and> liveBook deepEmptiedBook \<and>
   bidOrders deepEmptiedBook = [(100, [bidA]), (98, [])] \<and>
   askOrders deepEmptiedBook = [(99, [askB])] \<and>
   fst (snd (matchOrders 100 crossedBook (zeroStats 0))) = crossedAfter \<and>
   uncrossedTop crossedAfter \<and> askOrders crossedAfter = [] \<and>
   uncrossedTop (fst (snd (matchOrders 30 mixedBook (zeroStats 0)))) \<and>
   uncrossedTop (fst (snd (matchOrders (hours 2) deepEmptiedBook (zeroStats 0)))) \<and>
   bidOrders (fst (snd (matchOrders (hours 2) deepEmptiedBook (zeroStats 0)))) = [(100, [bidA])]"
proof -
  have c: "liveBook crossedBook" "liveBook mixedBook" "liveBook deepEmptiedBook" by code_simp+
  have d: "bidOrders deepEmptiedBook = [(100, [bidA]), (98, [])]"
    "askOrders deepEmptiedBook = [(99, [askB])]"
    "bidOrders (fst (snd (matchOrders (hours 2) deepEmptiedBook (zeroStats 0)))) = [(100, [bidA])]"
    by code_simp+
  have m: "fst (snd (matchOrders 100 crossedBook (zeroStats 0))) = crossedAfter" by code_simp
  have e: "askOrders crossedAfter = []" by code_simp
  from sweep_uncrosses_top_of_book [OF c(1), of 100 "zeroStats 0"] m
  have u: "uncrossedTop crossedAfter" by simp
  from sweep_uncrosses_top_of_book [OF c(2), of 30 "zeroStats 0"]
  have u': "uncrossedTop (fst (snd (matchOrders 30 mixedBook (zeroStats 0))))" by simp
  from sweep_uncrosses_top_of_book [OF c(3), of "hours 2" "zeroStats 0"]
  have u'': "uncrossedTop (fst (snd (matchOrders (hours 2) deepEmptiedBook (zeroStats 0))))"
    by simp
  from c d m e u u' u'' show ?thesis by (intro conjI)
qed



section \<open>Trades\<close>

text \<open>
  A trade that names a compatible bid and ask as buyer and seller, at the price of the ask and
  with the routing of the bid; and a list of trades that all name such a pair of orders of a
  book.
\<close>

definition tradeOfPair :: "Trade \<Rightarrow> Order \<Rightarrow> Order \<Rightarrow> bool" where
  "tradeOfPair t b a \<longleftrightarrow>
     compatible b a \<and> buyOrderId t = idorder b \<and> sellOrderId t = idorder a \<and>
     Trade.price t = price a \<and>
     Trade.marketIdentificationCode t = marketIdentificationCode b \<and>
     Trade.tradingCurrency t = tradingCurrency b"

definition tradesFromBook :: "OrderBook \<Rightarrow> Trade list \<Rightarrow> bool" where
  "tradesFromBook ob ts \<longleftrightarrow>
     (\<forall>t\<in>set ts. \<exists>b\<in>set (allOrders (bidOrders ob)). \<exists>a\<in>set (allOrders (askOrders ob)).
        tradeOfPair t b a)"

text \<open>
  Scenario 1: the engine after the bid 1001 was submitted, the trade of the bid with the ask
  2001, and the engine after the ask was submitted at time 100.
\<close>

definition afterBid :: MatchingEngine where
  "afterBid =
     scenarioEngine\<lparr>orderBook := (orderBook scenarioEngine)\<lparr>bidOrders := [(155, [bid1001])]\<rparr>\<rparr>"

definition trade1 :: Trade where
  "trade1 = \<lparr>tradeId = 1, buyOrderId = 1001, sellOrderId = 2001,
             Trade.marketIdentificationCode = ''XPAR'', Trade.tradingCurrency = ''EUR'',
             Trade.price = 148, Trade.quantity = 200, timestamp = 100\<rparr>"

definition afterAsk :: MatchingEngine where
  "afterAsk =
     afterBid\<lparr>orderBook := (orderBook afterBid)\<lparr>bidOrders := [(155, [bid1001\<lparr>quantity := 100\<rparr>])],
                                                 askOrders := [], trades := [trade1],
                                                 nextTradeId := 2\<rparr>,
              stats := \<lparr>dailyTradeCount = 2, dailyVolume = 59200, lastReset = 0,
                        totalTradeCount = 2, totalVolume = 59200, matchingAttempts = 0,
                        successfulMatches = 2\<rparr>\<rparr>"

lemma orderIdentity_fields:
  assumes "orderIdentity x = orderIdentity y"
  shows "idorder x = idorder y \<and> price x = price y \<and> idinstrument x = idinstrument y \<and>
    marketIdentificationCode x = marketIdentificationCode y \<and>
    tradingCurrency x = tradingCurrency y"
proof -
  have "idorder (orderIdentity x) = idorder (orderIdentity y)"
    "price (orderIdentity x) = price (orderIdentity y)"
    "idinstrument (orderIdentity x) = idinstrument (orderIdentity y)"
    "marketIdentificationCode (orderIdentity x) = marketIdentificationCode (orderIdentity y)"
    "tradingCurrency (orderIdentity x) = tradingCurrency (orderIdentity y)"
    by (simp_all only: assms)
  then show ?thesis
    by (simp add: orderIdentity_def)
qed


lemma tradeOfPair_identity:
  "tradeOfPair t b a \<Longrightarrow> orderIdentity b0 = orderIdentity b \<Longrightarrow>
     orderIdentity a0 = orderIdentity a \<Longrightarrow> tradeOfPair t b0 a0"
  using orderIdentity_fields [of b0 b] orderIdentity_fields [of a0 a]
  by (simp add: tradeOfPair_def compatible_def)

lemma subseq_identity_mem:
  assumes "subseq (map orderIdentity xs') (map orderIdentity xs)" "x \<in> set xs'"
  shows "\<exists>x0\<in>set xs. orderIdentity x0 = orderIdentity x"
proof -
  from assms(2) have "orderIdentity x \<in> set (map orderIdentity xs')" by simp
  with assms(1) obtain y where "y \<in> set (map orderIdentity xs)" "orderIdentity x = y"
    by (rule list_emb_set)
  then show ?thesis by auto
qed

lemma pass_trade:
  assumes tops: "bidOrders ob = (bp, bq) # brest" "askOrders ob = (ap, aq) # arest"
    and p: "matchPass now ob st n = (True, n', ob', st')"
  shows "\<exists>bs1 b bs2 as1 a as2.
           bq = bs1 @ b # bs2 \<and> aq = as1 @ a # as2 \<and> compatible b a \<and>
           (\<forall>x\<in>set bs1. \<forall>y\<in>set aq. \<not> compatible x y) \<and> (\<forall>y\<in>set as1. \<not> compatible b y) \<and>
           n' = n + 1 \<and>
           trades ob' = trades ob @ [pairTrade now (nextTradeId ob) b a] \<and>
           bidOrders ob' =
             cleanupLevels ((bp, bs1 @ fill (min (quantity b) (quantity a)) b # bs2) # brest) \<and>
           askOrders ob' =
             cleanupLevels ((ap, as1 @ fill (min (quantity b) (quantity a)) a # as2) # arest)"
  using tops
proof (cases rule: matchPass_cases [where now = now and st = st and n = n])
  case none
  with p show ?thesis by simp
next
  case (hit bs1 b bs2 as1 a as2)
  from p hit(6) have "n' = n + 1"
    "trades ob' = trades ob @ [pairTrade now (nextTradeId ob) b a]"
    "bidOrders ob' =
       cleanupLevels ((bp, bs1 @ fill (min (quantity b) (quantity a)) b # bs2) # brest)"
    "askOrders ob' =
       cleanupLevels ((ap, as1 @ fill (min (quantity b) (quantity a)) a # as2) # arest)"
    by (auto simp: cleanupExecutedOrders_def simp del: cleanupLevels.simps)
  with hit(1-5) show ?thesis by blast
qed

text \<open>The invariant of the sweep that started on \<open>ob0\<close>: its trades name orders of \<open>ob0\<close>.\<close>

definition tradeInv :: "OrderBook \<Rightarrow> int \<Rightarrow> OrderBook \<Rightarrow> Stats \<Rightarrow> bool" where
  "tradeInv ob0 n ob st \<longleftrightarrow>
     sweepInv 0 ob0 0 n ob st \<and> tradesFromBook ob0 (sweepTrades ob0 ob)"

lemma tradeInv_step:
  assumes inv: "tradeInv ob0 n ob st" and ne: "bidOrders ob \<noteq> []" "askOrders ob \<noteq> []"
    and p: "matchPass now ob st n = (found, n', ob', st')"
  shows "tradeInv ob0 n' ob' st'"
proof -
  from inv have si: "sweepInv 0 ob0 0 n ob st" and tf: "tradesFromBook ob0 (sweepTrades ob0 ob)"
    by (simp_all add: tradeInv_def)
  have si': "sweepInv 0 ob0 0 n' ob' st'" using si ne p by (rule sweepInv_step)
  from si obtain new where new: "trades ob = trades ob0 @ new"
    and sb: "subseq (map orderIdentity (allOrders (bidOrders ob)))
               (map orderIdentity (allOrders (bidOrders ob0)))"
    and sa: "subseq (map orderIdentity (allOrders (askOrders ob)))
               (map orderIdentity (allOrders (askOrders ob0)))"
    unfolding sweepInv_def by blast
  from ne obtain bp bq brest ap aq arest where
    tops: "bidOrders ob = (bp, bq) # brest" "askOrders ob = (ap, aq) # arest"
    by (metis list.exhaust surj_pair)
  have "tradesFromBook ob0 (sweepTrades ob0 ob')"
  proof (cases found)
    case False
    from tops have "trades ob' = trades ob"
    proof (cases rule: matchPass_cases [where now = now and st = st and n = n])
      case none
      with p show ?thesis by (auto simp: cleanupExecutedOrders_def)
    next
      case (hit bs1 b bs2 as1 a as2)
      with p False show ?thesis by simp
    qed
    with tf show ?thesis by (simp add: sweepTrades_def)
  next
    case True
    from True p have p': "matchPass now ob st n = (True, n', ob', st')" by simp
    from pass_trade [OF tops p'] obtain bs1 b bs2 as1 a as2 where
      h: "bq = bs1 @ b # bs2" "aq = as1 @ a # as2" "compatible b a"
        "trades ob' = trades ob @ [pairTrade now (nextTradeId ob) b a]"
      by blast
    have "b \<in> set (allOrders (bidOrders ob))" "a \<in> set (allOrders (askOrders ob))"
      by (simp_all add: tops h(1,2))
    then obtain b0 a0 where
      b0: "b0 \<in> set (allOrders (bidOrders ob0))" "orderIdentity b0 = orderIdentity b"
      and a0: "a0 \<in> set (allOrders (askOrders ob0))" "orderIdentity a0 = orderIdentity a"
      using subseq_identity_mem [OF sb] subseq_identity_mem [OF sa] by blast
    have "tradeOfPair (pairTrade now (nextTradeId ob) b a) b a"
      using h(3) by (simp add: tradeOfPair_def pairTrade_def)
    then have tp: "tradeOfPair (pairTrade now (nextTradeId ob) b a) b0 a0"
      using b0(2) a0(2) by (rule tradeOfPair_identity)
    have "sweepTrades ob0 ob' =
            sweepTrades ob0 ob @ [pairTrade now (nextTradeId ob) b a]"
      using new h(4) by (simp add: sweepTrades_def)
    with tf tp b0(1) a0(1) show ?thesis
      by (auto simp: tradesFromBook_def)
  qed
  with si' show ?thesis by (simp add: tradeInv_def)
qed

lemma matchOrders_tradesFromBook:
  "tradesFromBook ob (sweepTrades ob (fst (snd (matchOrders now ob st))))"
proof -
  have "tradeInv ob 0 ob st"
    by (simp add: tradeInv_def sweepInv_def boughtQty_def soldQty_def sweepTrades_def
        tradesFromBook_def)
  then have "case matchLoop now ob st 0 of (n', ob', st') \<Rightarrow> tradeInv ob n' ob' st'"
    by (rule matchLoop_rule) (rule tradeInv_step)
  then show ?thesis by (simp add: matchOrders_def tradeInv_def split: prod.splits)
qed

text \<open>
  Claim C3. When an iteration of the sweep finds a match on a book with best bid queue \<open>bq\<close>
  and best ask queue \<open>aq\<close>, it selected the first compatible pair \<open>b\<close>, \<open>a\<close> in the order of
  the scan, and it appended exactly one trade: its quantity is the minimum of the remaining
  quantities of \<open>b\<close> and \<open>a\<close>, its price is the price of the ask \<open>a\<close>, and both orders are
  filled by that quantity before the cleanup. Every trade of a whole sweep names a compatible
  bid and ask of the book the sweep started on and has the price of that ask. In scenario 1,
  both submissions are accepted, the log holds the single trade (buy 1001, sell 2001,
  quantity 200, price 148), the bid rests with remaining quantity 100 and the ask side is
  empty.
\<close>

theorem trade_quantity_and_price:
  "(bidOrders ob = (bp, bq) # brest \<and> askOrders ob = (ap, aq) # arest \<and>
    matchPass now ob st n = (True, n', ob', st') \<longrightarrow>
      (\<exists>bs1 b bs2 as1 a as2 t.
         bq = bs1 @ b # bs2 \<and> aq = as1 @ a # as2 \<and> compatible b a \<and>
         (\<forall>x\<in>set bs1. \<forall>y\<in>set aq. \<not> compatible x y) \<and> (\<forall>y\<in>set as1. \<not> compatible b y) \<and>
         n' = n + 1 \<and> trades ob' = trades ob @ [t] \<and>
         Trade.quantity t = min (quantity b) (quantity a) \<and> Trade.price t = price a \<and>
         buyOrderId t = idorder b \<and> sellOrderId t = idorder a \<and> tradeId t = nextTradeId ob \<and>
         bidOrders ob' =
           cleanupLevels ((bp, bs1 @ fill (min (quantity b) (quantity a)) b # bs2) # brest) \<and>
         askOrders ob' =
           cleanupLevels ((ap, as1 @ fill (min (quantity b) (quantity a)) a # as2) # arest))) \<and>
   tradesFromBook ob (sweepTrades ob (fst (snd (matchOrders now ob st)))) \<and>
   addAndValidateOrder 0 bid1001 scenarioEngine = Inr (True, afterBid) \<and>
   addAndValidateOrder 100 ask2001 afterBid = Inr (True, afterAsk) \<and>
   trades (orderBook afterAsk) = [trade1] \<and>
   bidOrders (orderBook afterAsk) = [(155, [bid1001\<lparr>quantity := 100\<rparr>])] \<and>
   askOrders (orderBook afterAsk) = []"
proof -
  have pass: "bidOrders ob = (bp, bq) # brest \<and> askOrders ob = (ap, aq) # arest \<and>
    matchPass now ob st n = (True, n', ob', st') \<longrightarrow>
      (\<exists>bs1 b bs2 as1 a as2 t.
         bq = bs1 @ b # bs2 \<and> aq = as1 @ a # as2 \<and> compatible b a \<and>
         (\<forall>x\<in>set bs1. \<forall>y\<in>set aq. \<not> compatible x y) \<and> (\<forall>y\<in>set as1. \<not> compatible b y) \<and>
         n' = n + 1 \<and> trades ob' = trades ob @ [t] \<and>
         Trade.quantity t = min (quantity b) (quantity a) \<and> Trade.price t = price a \<and>
         buyOrderId t = idorder b \<and> sellOrderId t = idorder a \<and> tradeId t = nextTradeId ob \<and>
         bidOrders ob' =
           cleanupLevels ((bp, bs1 @ fill (min (quantity b) (quantity a)) b # bs2) # brest) \<and>
         askOrders ob' =
           cleanupLevels ((ap, as1 @ fill (min (quantity b) (quantity a)) a # as2) # arest))"
  proof (intro impI, elim conjE)
    assume tops: "bidOrders ob = (bp, bq) # brest" "askOrders ob = (ap, aq) # arest"
      and p: "matchPass now ob st n = (True, n', ob', st')"
    from pass_trade [OF tops p] obtain bs1 b bs2 as1 a as2 where
      h: "bq = bs1 @ b # bs2" "aq = as1 @ a # as2" "compatible b a"
        "\<forall>x\<in>set bs1. \<forall>y\<in>set aq. \<not> compatible x y" "\<forall>y\<in>set as1. \<not> compatible b y"
        "n' = n + 1" "trades ob' = trades ob @ [pairTrade now (nextTradeId ob) b a]"
        "bidOrders ob' =
           cleanupLevels ((bp, bs1 @ fill (min (quantity b) (quantity a)) b # bs2) # brest)"
        "askOrders ob' =
           cleanupLevels ((ap, as1 @ fill (min (quantity b) (quantity a)) a # as2) # arest)"
      by blast
    let ?t = "pairTrade now (nextTradeId ob) b a"
    have f: "Trade.quantity ?t = min (quantity b) (quantity a)" "Trade.price ?t = price a"
      "buyOrderId ?t = idorder b" "sellOrderId ?t = idorder a" "tradeId ?t = nextTradeId ob"
      by (simp_all add: pairTrade_def)
    from h f show "\<exists>bs1 b bs2 as1 a as2 t.
         bq = bs1 @ b # bs2 \<and> aq = as1 @ a # as2 \<and> compatible b a \<and>
         (\<forall>x\<in>set bs1. \<forall>y\<in>set aq. \<not> compatible x y) \<and> (\<forall>y\<in>set as1. \<not> compatible b y) \<and>
         n' = n + 1 \<and> trades ob' = trades ob @ [t] \<and>
         Trade.quantity t = min (quantity b) (quantity a) \<and> Trade.price t = price a \<and>
         buyOrderId t = idorder b \<and> sellOrderId t = idorder a \<and> tradeId t = nextTradeId ob \<and>
         bidOrders ob' =
           cleanupLevels ((bp, bs1 @ fill (min (quantity b) (quantity a)) b # bs2) # brest) \<and>
         askOrders ob' =
           cleanupLevels ((ap, as1 @ fill (min (quantity b) (quantity a)) a # as2) # arest)"
      by (intro exI [of _ bs1] exI [of _ b] exI [of _ bs2] exI [of _ as1] exI [of _ a]
          exI [of _ as2] exI [of _ ?t]) (intro conjI; assumption)
  qed
  have s1: "addAndValidateOrder 0 bid1001 scenarioEngine = Inr (True, afterBid)"
    by code_simp
  have s2: "addAndValidateOrder 100 ask2001 afterBid = Inr (True, afterAsk)"
    by code_simp
  have s3: "trades (orderBook afterAsk) = [trade1]"
    "bidOrders (orderBook afterAsk) = [(155, [bid1001\<lparr>quantity := 100\<rparr>])]"
    "askOrders (orderBook afterAsk) = []"
    by (simp_all add: afterAsk_def)
  from pass matchOrders_tradesFromBook [of ob now st] s1 s2 s3 show ?thesis
    by (intro conjI)
qed

theorem trade_quantity_and_price_witness:
  "bidOrders crossedBook = (155, [bid1001]) # [] \<and>
   askOrders crossedBook = (148, [ask2001]) # [] \<and>
   matchPass 100 crossedBook (zeroStats 0) 0 = (True, 1, crossedAfter, zeroStats 0) \<and>
   (\<exists>bs1 b bs2 as1 a as2 t.
      [bid1001] = bs1 @ b # bs2 \<and> [ask2001] = as1 @ a # as2 \<and> compatible b a \<and>
      trades crossedAfter = trades crossedBook @ [t] \<and>
      Trade.quantity t = min (quantity b) (quantity a) \<and> Trade.price t = price a) \<and>
   trades crossedAfter = [pairTrade 100 1 bid1001 ask2001] \<and>
   Trade.quantity (pairTrade 100 1 bid1001 ask2001) = 200 \<and>
   Trade.price (pairTrade 100 1 bid1001 ask2001) = 148"
proof -
  have h: "bidOrders crossedBook = (155, [bid1001]) # []"
    "askOrders crossedBook = (148, [ask2001]) # []"
    "matchPass 100 crossedBook (zeroStats 0) 0 = (True, 1, crossedAfter, zeroStats 0)"
    by code_simp+
  have e: "trades crossedAfter = [pairTrade 100 1 bid1001 ask2001]"
    "Trade.quantity (pairTrade 100 1 bid1001 ask2001) = 200"
    "Trade.price (pairTrade 100 1 bid1001 ask2001) = 148"
    by code_simp+
  from trade_quantity_and_price
         [of crossedBook 155 "[bid1001]" "[]" 148 "[ask2001]" "[]" 100 "zeroStats 0" 0 1
             crossedAfter "zeroStats 0"] h
  have "\<exists>bs1 b bs2 as1 a as2 t.
      [bid1001] = bs1 @ b # bs2 \<and> [ask2001] = as1 @ a # as2 \<and> compatible b a \<and>
      trades crossedAfter = trades crossedBook @ [t] \<and>
      Trade.quantity t = min (quantity b) (quantity a) \<and> Trade.price t = price a"
    by blast
  with h e show ?thesis by (intro conjI)
qed

section \<open>Statistics of a submission\<close>

text \<open>
  The statistics after a list of trades was delivered to \<open>updateStats\<close>, one trade after the
  other, and the value of a trade.
\<close>

definition deliver :: "Trade list \<Rightarrow> Stats \<Rightarrow> Stats" where
  "deliver ts st = foldl (\<lambda>s t. updateStats t s) st ts"

definition tradeValue :: "Trade \<Rightarrow> rat" where
  "tradeValue t = of_int (Trade.quantity t) * Trade.price t"

text \<open>
  The invariant of the sweep that started on \<open>ob0\<close> with the statistics \<open>st0\<close>: a book
  owned by an engine has delivered each trade of the sweep once, in the order of the log.
\<close>

definition statsInv :: "OrderBook \<Rightarrow> Stats \<Rightarrow> int \<Rightarrow> OrderBook \<Rightarrow> Stats \<Rightarrow> bool" where
  "statsInv ob0 st0 n ob st \<longleftrightarrow>
     matchingEngine ob = matchingEngine ob0 \<and>
     (\<exists>new. trades ob = trades ob0 @ new \<and> n = int (length new) \<and>
        st = (if matchingEngine ob0 then deliver new st0 else st0))"

lemma deliver_snoc: "deliver (ts @ [t]) st = updateStats t (deliver ts st)"
  by (simp add: deliver_def)

lemma deliver_counts:
  "dailyTradeCount (deliver ts st) = dailyTradeCount st + int (length ts) \<and>
   totalTradeCount (deliver ts st) = totalTradeCount st + int (length ts) \<and>
   dailyVolume (deliver ts st) = dailyVolume st + sum_list (map tradeValue ts) \<and>
   totalVolume (deliver ts st) = totalVolume st + sum_list (map tradeValue ts)"
proof (induction ts rule: rev_induct)
  case Nil
  show ?case by (simp add: deliver_def)
next
  case (snoc t ts)
  then show ?case
    by (simp add: deliver_snoc updateStats_def tradeValue_def Let_def)
qed

lemma statsInv_step:
  assumes inv: "statsInv ob0 st0 n ob st" and ne: "bidOrders ob \<noteq> []" "askOrders ob \<noteq> []"
    and p: "matchPass now ob st n = (found, n', ob', st')"
  shows "statsInv ob0 st0 n' ob' st'"
proof -
  from inv obtain new where e: "matchingEngine ob = matchingEngine ob0"
    and new: "trades ob = trades ob0 @ new" "n = int (length new)"
      "st = (if matchingEngine ob0 then deliver new st0 else st0)"
    unfolding statsInv_def by blast
  from ne obtain bp bq brest ap aq arest where
    tops: "bidOrders ob = (bp, bq) # brest" "askOrders ob = (ap, aq) # arest"
    by (metis list.exhaust surj_pair)
  from tops show ?thesis
  proof (cases rule: matchPass_cases [where now = now and st = st and n = n])
    case none
    with p have "ob' = cleanupExecutedOrders ob" "n' = n" "st' = st" by simp_all
    with e new show ?thesis
      unfolding statsInv_def by (auto simp: cleanupExecutedOrders_def)
  next
    case (hit bs1 b bs2 as1 a as2)
    let ?t = "pairTrade now (nextTradeId ob) b a"
    from p hit(6) have r: "matchingEngine ob' = matchingEngine ob"
      "trades ob' = trades ob @ [?t]" "n' = n + 1"
      "st' = notifyMatch (matchingEngine ob) ?t st"
      by (auto simp: cleanupExecutedOrders_def)
    have "trades ob' = trades ob0 @ (new @ [?t]) \<and> n' = int (length (new @ [?t])) \<and>
        st' = (if matchingEngine ob0 then deliver (new @ [?t]) st0 else st0)"
      using r new e by (simp add: notifyMatch_def deliver_snoc)
    with r(1) e show ?thesis unfolding statsInv_def by blast
  qed
qed

lemma matchOrders_statistics:
  assumes "matchOrders now ob st = (k, ob', st')"
  shows "matchingEngine ob' = matchingEngine ob \<and>
         trades ob' = trades ob @ sweepTrades ob ob' \<and> k = int (length (sweepTrades ob ob')) \<and>
         st' = (if matchingEngine ob then deliver (sweepTrades ob ob') st else st)"
proof -
  have "statsInv ob st 0 ob st"
    by (simp add: statsInv_def deliver_def)
  then have "case matchLoop now ob st 0 of (n', ob', st') \<Rightarrow> statsInv ob st n' ob' st'"
    by (rule matchLoop_rule) (rule statsInv_step)
  with assms obtain new where "matchingEngine ob' = matchingEngine ob"
    "trades ob' = trades ob @ new" "k = int (length new)"
    "st' = (if matchingEngine ob then deliver new st else st)"
    by (auto simp: matchOrders_def statsInv_def)
  then show ?thesis by (simp add: sweepTrades_def)
qed

lemma addOrder_fields [simp]:
  "trades (addOrder ord ob) = trades ob" "matchingEngine (addOrder ord ob) = matchingEngine ob"
  by (simp_all add: addOrder_def)

text \<open>
  An accepted submission to an engine that owns its book, with at least one trade in its
  sweep: the counters grow by the number of trades plus one, the volumes by the value of the
  trades plus the value of the last one.
\<close>

lemma submission_statistics:
  assumes acc: "addAndValidateOrder now ord eng = Inr (True, eng')"
    and own: "matchingEngine (orderBook eng)"
    and ts: "ts = sweepTrades (orderBook eng) (orderBook eng')" "ts \<noteq> []"
  shows "dailyTradeCount (stats eng') = dailyTradeCount (stats eng) + int (length ts) + 1 \<and>
         totalTradeCount (stats eng') = totalTradeCount (stats eng) + int (length ts) + 1 \<and>
         dailyVolume (stats eng') =
           dailyVolume (stats eng) + sum_list (map tradeValue ts) + tradeValue (last ts) \<and>
         totalVolume (stats eng') =
           totalVolume (stats eng) + sum_list (map tradeValue ts) + tradeValue (last ts)"
proof -
  from acc have eng': "eng' = acceptOrder now ord eng"
    unfolding addAndValidateOrder_def by (rule addAndValidateLoop_accepted)
  obtain k ob' st' where
    m: "matchOrders now (addOrder ord (orderBook eng)) (stats eng) = (k, ob', st')"
    by (metis prod_cases3)
  from matchOrders_statistics [OF m] own have
    r: "trades ob' = trades (orderBook eng) @ sweepTrades (addOrder ord (orderBook eng)) ob'"
      "k = int (length (sweepTrades (addOrder ord (orderBook eng)) ob'))"
      "st' = deliver (sweepTrades (addOrder ord (orderBook eng)) ob') (stats eng)"
    by simp_all
  have ob: "orderBook eng' = ob'" using eng' m by (simp add: acceptOrder_def)
  have sw: "sweepTrades (addOrder ord (orderBook eng)) ob' = ts"
    using ts(1) ob by (simp add: sweepTrades_def)
  have k: "k > 0" using r(2) ts(2) sw by simp
  have l: "getLastTrade ob' = Some (last ts)"
    using r(1) ts(2) sw by (simp add: getLastTrade_def)
  have "stats eng' = updateStats (last ts) (deliver ts (stats eng))"
    using eng' m k l r(3) sw by (simp add: acceptOrder_def)
  then show ?thesis
    using deliver_counts [of ts "stats eng"]
    by (simp add: updateStats_def tradeValue_def Let_def)
qed


text \<open>
  Claim C5 says that the counters grow by the number of trades of the sweep of a submission,
  and the volumes by their value. In scenario 1 the submission of the ask produces one trade,
  \<open>matchOrders\<close> delivers it through \<open>notifyMatch\<close>, and \<open>addAndValidateOrder\<close> delivers the
  last trade of the log once more: both trade counters grow by 2 and both volumes by twice the
  value of the trade.
\<close>

theorem submission_counts_last_trade_twice:
  "addAndValidateOrder 100 ask2001 afterBid = Inr (True, afterAsk) \<and>
   sweepTrades (orderBook afterBid) (orderBook afterAsk) = [trade1] \<and>
   dailyTradeCount (stats afterAsk) = dailyTradeCount (stats afterBid) + 2 \<and>
   totalTradeCount (stats afterAsk) = totalTradeCount (stats afterBid) + 2 \<and>
   dailyVolume (stats afterAsk) =
     dailyVolume (stats afterBid) + 2 * (of_int (Trade.quantity trade1) * Trade.price trade1) \<and>
   totalVolume (stats afterAsk) =
     totalVolume (stats afterBid) + 2 * (of_int (Trade.quantity trade1) * Trade.price trade1)"
  by code_simp


end
